theory Spec2Isabelle
  imports Main "HOL-Library.Word"
begin

section \<open>Text: JavaScript strings as sequences of 16-bit code units\<close>

text \<open>
  A JavaScript string is a sequence of UTF-16 code units; \<^verbatim>\<open>split\<close>, \<^verbatim>\<open>replace\<close>,
  \<^verbatim>\<open>trim\<close> and a regular expression without the \<^verbatim>\<open>u\<close> flag all work on code units.
  \<open>js\<close> turns an ASCII literal of the theory into such a text.
\<close>

type_synonym code_unit = "16 word"
type_synonym jstring = "code_unit list"

definition js :: "string \<Rightarrow> jstring" where
  "js s = map of_char s"

definition LF :: code_unit where "LF = 10"
definition CR :: code_unit where "CR = 13"
definition minus_sign :: code_unit where "minus_sign = 45"
definition point :: code_unit where "point = 46"

text \<open>\<^verbatim>\<open>\d\<close> (no \<^verbatim>\<open>u\<close> flag): the ASCII digits.\<close>

definition isDigit :: "code_unit \<Rightarrow> bool" where
  "isDigit c = (48 \<le> c \<and> c \<le> 57)"

text \<open>\<^verbatim>\<open>[a-zA-Z%/]\<close>\<close>

definition isUnitChar :: "code_unit \<Rightarrow> bool" where
  "isUnitChar c = ((97 \<le> c \<and> c \<le> 122) \<or> (65 \<le> c \<and> c \<le> 90) \<or> c = 37 \<or> c = 47)"

text \<open>
  \<^verbatim>\<open>\s\<close>, and what \<^verbatim>\<open>trim\<close> removes: ECMAScript WhiteSpace (TAB, VT, FF, SP, NBSP,
  ZWNBSP and the Unicode space separators) and LineTerminator (LF, CR, LS, PS).
\<close>

definition isSpace :: "code_unit \<Rightarrow> bool" where
  "isSpace c = (c = 9 \<or> c = 10 \<or> c = 11 \<or> c = 12 \<or> c = 13 \<or> c = 32 \<or> c = 160
     \<or> c = 0x1680 \<or> (0x2000 \<le> c \<and> c \<le> 0x200A) \<or> c = 0x2028 \<or> c = 0x2029
     \<or> c = 0x202F \<or> c = 0x205F \<or> c = 0x3000 \<or> c = 0xFEFF)"

text \<open>\<^verbatim>\<open>String.prototype.trim\<close>\<close>

definition trim :: "jstring \<Rightarrow> jstring" where
  "trim s = rev (dropWhile isSpace (rev (dropWhile isSpace s)))"

text \<open>
  \<^verbatim>\<open>s.split('\n')\<close>: the segments between line feeds; always at least one segment,
  the last one being the text after the last line feed.
\<close>

fun split_lf :: "jstring \<Rightarrow> jstring list" where
  "split_lf [] = [[]]"
| "split_lf (c # cs) =
     (if c = LF then [] # split_lf cs
      else (c # hd (split_lf cs)) # tl (split_lf cs))"

text \<open>\<^verbatim>\<open>rows.join('\n')\<close>\<close>

definition join_lf :: "jstring list \<Rightarrow> jstring" where
  "join_lf rows = (case rows of [] \<Rightarrow> [] | r # rs \<Rightarrow> r @ concat (map (\<lambda>x. LF # x) rs))"

section \<open>Line framing of the read loop\<close>

text \<open>
  serial.js, \<^verbatim>\<open>#readLoop\<close>, the body executed for one decoded chunk:
  \<^verbatim>\<open>
  buffer += decoder.decode(value, { stream: true });
  let lines = buffer.split('\n');
  buffer = lines.pop();
  for (const line of lines) {
    const trimmed = line.replace(/\r/g, '').trim();
    if (trimmed) this.#parseLine(trimmed);
  }
  \<close>
  A chunk is the text the streaming decoder returns for one read. \<open>feed\<close> returns the
  lines handed to \<^verbatim>\<open>#parseLine\<close>, in order, and the new pending buffer.
\<close>

definition trim_line :: "jstring \<Rightarrow> jstring" where
  "trim_line line = trim (filter (\<lambda>c. c \<noteq> CR) line)"

definition feed :: "jstring \<Rightarrow> jstring \<Rightarrow> jstring list \<times> jstring" where
  "feed buffer chunk =
     (let lines = split_lf (buffer @ chunk)
      in (filter (\<lambda>t. t \<noteq> []) (map trim_line (butlast lines)), last lines))"

text \<open>The loop over successive chunks: the buffer is threaded through, the lines add up.\<close>

fun feed_all :: "jstring \<Rightarrow> jstring list \<Rightarrow> jstring list \<times> jstring" where
  "feed_all buffer [] = ([], buffer)"
| "feed_all buffer (chunk # chunks) =
     (let (ls, buffer') = feed buffer chunk;
          (ls', buffer'') = feed_all buffer' chunks
      in (ls @ ls', buffer''))"

section \<open>Chunk-boundary invariance\<close>

lemma split_lf_nonempty: "split_lf s \<noteq> []"
  by (induction s) auto

text \<open>
  Splitting is the inverse of joining with line feeds, and no segment holds a line feed.
\<close>

lemma split_lf_join: "join_lf (split_lf s) = s"
proof (induction s)
  case Nil
  show ?case by (simp add: join_lf_def)
next
  case (Cons c cs)
  obtain x xs where x: "split_lf cs = x # xs"
    using split_lf_nonempty [of cs] by (cases "split_lf cs") auto
  with Cons show ?case by (simp add: join_lf_def)
qed

lemma split_lf_segments: "seg \<in> set (split_lf s) \<Longrightarrow> LF \<notin> set seg"
proof (induction s arbitrary: seg)
  case Nil
  then show ?case by simp
next
  case (Cons c cs)
  obtain x xs where x: "split_lf cs = x # xs"
    using split_lf_nonempty [of cs] by (cases "split_lf cs") auto
  from Cons.IH [of x] x have hx: "LF \<notin> set x" by simp
  from Cons.IH x have hxs: "\<And>y. y \<in> set xs \<Longrightarrow> LF \<notin> set y" by simp
  from Cons.prems x hx hxs show ?case
    by (auto split: if_splits)
qed

lemma split_lf_append:
  "split_lf (a @ b) =
     butlast (split_lf a) @ split_lf (last (split_lf a) @ b)"
proof (induction a)
  case Nil
  show ?case by simp
next
  case (Cons c cs)
  have ne: "split_lf cs \<noteq> []" by (rule split_lf_nonempty)
  show ?case
  proof (cases "c = LF")
    case True
    with Cons ne show ?thesis by simp
  next
    case False
    show ?thesis
    proof (cases "tl (split_lf cs) = []")
      case True
      with ne have one: "split_lf cs = [hd (split_lf cs)]"
        by (cases "split_lf cs") auto
      from one have l: "last (split_lf cs) = hd (split_lf cs)"
        by (metis last.simps)
      from one have b: "butlast (split_lf cs) = []"
        by (metis butlast.simps(2))
      from Cons l b have "split_lf (cs @ b) = split_lf (hd (split_lf cs) @ b)"
        by simp
      with False True l show ?thesis by simp
    next
      case nontriv: False
      with ne obtain x y ys where s: "split_lf cs = x # y # ys"
        by (cases "split_lf cs"; cases "tl (split_lf cs)") auto
      with Cons False show ?thesis by simp
    qed
  qed
qed

lemma feed_append:
  "feed buffer (a @ b) =
     (fst (feed buffer a) @ fst (feed (snd (feed buffer a)) b),
      snd (feed (snd (feed buffer a)) b))"
proof -
  let ?s = "split_lf (buffer @ a)"
  have e: "split_lf (buffer @ a @ b) = butlast ?s @ split_lf (last ?s @ b)"
    using split_lf_append [of "buffer @ a" b] by simp
  have ne: "split_lf (last ?s @ b) \<noteq> []" by (rule split_lf_nonempty)
  from ne have "butlast (butlast ?s @ split_lf (last ?s @ b)) =
      butlast ?s @ butlast (split_lf (last ?s @ b))"
    by (simp add: butlast_append)
  moreover from ne have "last (butlast ?s @ split_lf (last ?s @ b)) =
      last (split_lf (last ?s @ b))"
    by simp
  ultimately show ?thesis
    by (simp add: feed_def Let_def e)
qed

lemma feed_empty_chunk: "feed (snd (feed buffer a)) [] = ([], snd (feed buffer a))"
proof -
  have ne: "split_lf (buffer @ a) \<noteq> []" by (rule split_lf_nonempty)
  have "split_lf (last (split_lf (buffer @ a))) = [last (split_lf (buffer @ a))]"
    using split_lf_append [of "buffer @ a" "[]"] ne
    by (metis append_Nil2 append_butlast_last_id same_append_eq)
  then show ?thesis by (simp add: feed_def Let_def)
qed

lemma feed_all_concat:
  "feed_all (snd (feed b0 a)) chunks = feed (snd (feed b0 a)) (concat chunks)"
proof (induction chunks arbitrary: b0 a)
  case Nil
  show ?case by (simp add: feed_empty_chunk)
next
  case (Cons c cs)
  have s: "snd (feed (snd (feed b0 a)) c) = snd (feed b0 (a @ c))"
    by (simp add: feed_append)
  have "feed_all (snd (feed b0 a)) (c # cs) =
      (fst (feed (snd (feed b0 a)) c) @ fst (feed_all (snd (feed b0 (a @ c))) cs),
       snd (feed_all (snd (feed b0 (a @ c))) cs))"
    by (simp add: s case_prod_beta)
  also have "feed_all (snd (feed b0 (a @ c))) cs = feed (snd (feed b0 (a @ c))) (concat cs)"
    by (rule Cons.IH)
  finally show ?case
    using feed_append [of "snd (feed b0 a)" c "concat cs"] s by simp
qed

text \<open>
  C2. Chunk-boundary invariance: the read loop starts with the empty buffer; whatever
  the split of the received text into chunks, feeding the chunks one at a time hands
  the same lines to the parser, in the same order, and leaves the same pending buffer,
  as feeding their concatenation as a single chunk.
\<close>

theorem chunk_boundary_invariance:
  "feed_all [] chunks = feed [] (concat chunks)"
proof -
  have "snd (feed [] []) = []" by (simp add: feed_def)
  then show ?thesis using feed_all_concat [of "[]" "[]" chunks] by simp
qed

section \<open>The reading parser\<close>

text \<open>
  serial.js, \<^verbatim>\<open>#parseLine\<close>:
  \<^verbatim>\<open>
  const match = line.match(/(-?\d+(\.\d+)?)\s*([a-zA-Z%/]*)/);
  if (match) {
    const value = parseFloat(match[1]);
    const unit = match[3] || '';
    this.#emit('reading', { raw: line, value, unit });
  } else {
    this.#emit('reading', { raw: line, value: null, unit: '' });
  }
  \<close>
  The regular expression is modelled by its backtracking semantics. A matcher maps a
  text to every way of matching a prefix of it, as pairs of the matched text and the
  rest, in the order in which the backtracking engine tries them; the engine's match
  at a position is the first alternative of the whole pattern.
\<close>

type_synonym 'a matcher = "jstring \<Rightarrow> ('a \<times> jstring) list"

text \<open>A single character.\<close>

definition lit :: "code_unit \<Rightarrow> jstring matcher" where
  "lit c s = (case s of [] \<Rightarrow> [] | x # xs \<Rightarrow> if x = c then [([c], xs)] else [])"

text \<open>\<^verbatim>\<open>[cls]*\<close>, greedy: the longest run first, then every shorter one down to the empty one.\<close>

definition many :: "(code_unit \<Rightarrow> bool) \<Rightarrow> jstring matcher" where
  "many cls s = map (\<lambda>n. (take n s, drop n s)) (rev [0..<Suc (length (takeWhile cls s))])"

text \<open>\<^verbatim>\<open>[cls]+\<close>, greedy: as above, without the empty run.\<close>

definition many1 :: "(code_unit \<Rightarrow> bool) \<Rightarrow> jstring matcher" where
  "many1 cls s = map (\<lambda>n. (take n s, drop n s)) (rev [1..<Suc (length (takeWhile cls s))])"

text \<open>\<^verbatim>\<open>m?\<close>, greedy: the matches of \<open>m\<close> first, then the empty match.\<close>

definition opt :: "jstring matcher \<Rightarrow> jstring matcher" where
  "opt m s = m s @ [([], s)]"

text \<open>Concatenation: for each match of the first, in order, every match of the second.\<close>

definition seq :: "jstring matcher \<Rightarrow> jstring matcher \<Rightarrow> jstring matcher" where
  "seq m1 m2 s = concat (map (\<lambda>(a, r). map (\<lambda>(b, r'). (a @ b, r')) (m2 r)) (m1 s))"

text \<open>Group 1: \<^verbatim>\<open>(-?\d+(\.\d+)?)\<close>\<close>

definition number_re :: "jstring matcher" where
  "number_re =
     seq (opt (lit minus_sign)) (seq (many1 isDigit) (opt (seq (lit point) (many1 isDigit))))"

text \<open>
  The whole pattern, \<^verbatim>\<open>(-?\d+(\.\d+)?)\s*([a-zA-Z%/]*)\<close>; a match carries the captures of
  groups 1 and 3.
\<close>

definition reading_re :: "(jstring \<times> jstring) matcher" where
  "reading_re s =
     concat (map (\<lambda>(g1, r1).
       concat (map (\<lambda>(ws, r2).
         map (\<lambda>(g3, r3). ((g1, g3), r3)) (many isUnitChar r2))
       (many isSpace r1)))
     (number_re s))"

definition match_at :: "jstring \<Rightarrow> (jstring \<times> jstring) option" where
  "match_at s = (case reading_re s of [] \<Rightarrow> None | (g, r) # alts \<Rightarrow> Some g)"

text \<open>
  \<^verbatim>\<open>line.match(re)\<close> without the \<^verbatim>\<open>g\<close> flag: the match at the first start index,
  from 0 to the length of the line, at which the pattern matches.
\<close>

fun exec :: "jstring \<Rightarrow> (jstring \<times> jstring) option" where
  "exec [] = match_at []"
| "exec (c # cs) = (case match_at (c # cs) of Some g \<Rightarrow> Some g | None \<Rightarrow> exec cs)"

text \<open>
  The detail of a \<^verbatim>\<open>reading\<close> event. Numbers are IEEE doubles, of a type \<open>'n\<close> left
  open; \<open>val\<close> is \<open>None\<close> for \<^verbatim>\<open>null\<close>. The platform's \<^verbatim>\<open>parseFloat\<close> is the
  parameter \<open>parseFloat\<close>. Group 3 takes part in every match, as the empty string when
  no unit character follows, so \<^verbatim>\<open>match[3] || ''\<close> is \<^verbatim>\<open>match[3]\<close>.
\<close>

record 'n reading =
  raw :: jstring
  val :: "'n option"
  unit :: jstring

definition reading_of :: "(jstring \<Rightarrow> 'n) \<Rightarrow> jstring \<Rightarrow> 'n reading" where
  "reading_of parseFloat line =
     (case exec line of
        Some (m1, m3) \<Rightarrow> \<lparr>raw = line, val = Some (parseFloat m1), unit = m3\<rparr>
      | None \<Rightarrow> \<lparr>raw = line, val = None, unit = []\<rparr>)"

subsection \<open>The scan of the specification\<close>

text \<open>
  The specification describes the parser as a scan: locate the first substring made of
  an optional leading minus sign, digits, and an optional decimal point with digits;
  the unit is the token of letters, percent and slash characters that follows it,
  after optional white space. \<open>literal_at\<close> is the numeric literal a text starts
  with, \<open>first_literal\<close> the first one in a line with the text after it.
\<close>

definition literal_at :: "jstring \<Rightarrow> jstring option" where
  "literal_at s =
     (let sgn = (if s \<noteq> [] \<and> hd s = minus_sign then [minus_sign] else []);
          s1 = drop (length sgn) s;
          ds = takeWhile isDigit s1;
          s2 = dropWhile isDigit s1;
          fs = (case s2 of [] \<Rightarrow> [] | c # t \<Rightarrow> if c = point then takeWhile isDigit t else [])
      in if ds = [] then None
         else Some (sgn @ ds @ (if fs = [] then [] else point # fs)))"

fun first_literal :: "jstring \<Rightarrow> (jstring \<times> jstring) option" where
  "first_literal [] = None"
| "first_literal (c # cs) =
     (case literal_at (c # cs) of
        Some l \<Rightarrow> Some (l, drop (length l) (c # cs))
      | None \<Rightarrow> first_literal cs)"

definition unit_token :: "jstring \<Rightarrow> jstring" where
  "unit_token rest = takeWhile isUnitChar (dropWhile isSpace rest)"

definition spec_parse :: "(jstring \<Rightarrow> 'n) \<Rightarrow> jstring \<Rightarrow> 'n reading" where
  "spec_parse parseFloat line =
     (case first_literal line of
        Some (l, rest) \<Rightarrow> \<lparr>raw = line, val = Some (parseFloat l), unit = unit_token rest\<rparr>
      | None \<Rightarrow> \<lparr>raw = line, val = None, unit = []\<rparr>)"

subsection \<open>The regular expression finds the first literal\<close>

lemma many_hd:
  "many cls s = (takeWhile cls s, dropWhile cls s) #
     map (\<lambda>n. (take n s, drop n s)) (rev [0..<length (takeWhile cls s)])"
  by (simp add: many_def takeWhile_eq_take [symmetric] dropWhile_eq_drop [symmetric])

lemma many1_hd:
  "many1 cls s =
     (if takeWhile cls s = [] then []
      else (takeWhile cls s, dropWhile cls s) #
        map (\<lambda>n. (take n s, drop n s)) (rev [1..<length (takeWhile cls s)]))"
proof (cases "takeWhile cls s = []")
  case True
  then show ?thesis by (simp add: many1_def)
next
  case False
  then have "1 \<le> length (takeWhile cls s)" by (cases "takeWhile cls s") auto
  then have "[1..<Suc (length (takeWhile cls s))] = [1..<length (takeWhile cls s)] @ [length (takeWhile cls s)]"
    by simp
  with False show ?thesis
    by (simp add: many1_def takeWhile_eq_take [symmetric] dropWhile_eq_drop [symmetric])
qed

definition frac_at :: "jstring \<Rightarrow> jstring" where
  "frac_at s2 = (case s2 of [] \<Rightarrow> [] | c # t \<Rightarrow> if c = point then takeWhile isDigit t else [])"

lemma frac_hd:
  "\<exists>alts. opt (seq (lit point) (many1 isDigit)) s2 =
     (if frac_at s2 = [] then ([], s2) else (point # frac_at s2, drop (Suc (length (frac_at s2))) s2)) # alts"
proof (cases s2)
  case Nil
  then show ?thesis by (simp add: opt_def seq_def lit_def frac_at_def)
next
  case (Cons c t)
  show ?thesis
  proof (cases "c = point \<and> takeWhile isDigit t \<noteq> []")
    case True
    then show ?thesis using Cons
      by (simp add: opt_def seq_def lit_def frac_at_def many1_hd dropWhile_eq_drop)
  next
    case False
    then show ?thesis using Cons
      by (auto simp add: opt_def seq_def lit_def frac_at_def many1_hd)
  qed
qed

definition lit_tail :: "jstring \<Rightarrow> jstring" where
  "lit_tail t = takeWhile isDigit t @
     (if frac_at (dropWhile isDigit t) = [] then [] else point # frac_at (dropWhile isDigit t))"

lemma digits_none:
  "takeWhile isDigit t = [] \<Longrightarrow>
     seq (many1 isDigit) (opt (seq (lit point) (many1 isDigit))) t = []"
  by (simp add: seq_def many1_hd)

lemma digits_hd:
  assumes "takeWhile isDigit t \<noteq> []"
  shows "\<exists>alts. seq (many1 isDigit) (opt (seq (lit point) (many1 isDigit))) t =
     (lit_tail t, drop (length (lit_tail t)) t) # alts"
proof -
  obtain alts where a: "opt (seq (lit point) (many1 isDigit)) (dropWhile isDigit t) =
     (if frac_at (dropWhile isDigit t) = [] then ([], dropWhile isDigit t)
      else (point # frac_at (dropWhile isDigit t),
            drop (Suc (length (frac_at (dropWhile isDigit t)))) (dropWhile isDigit t))) # alts"
    using frac_hd by blast
  have d: "dropWhile isDigit t = drop (length (takeWhile isDigit t)) t"
    by (rule dropWhile_eq_drop)
  show ?thesis using assms a
    by (simp add: seq_def many1_hd d [symmetric] lit_tail_def) (simp add: d add.commute)
qed

lemma literal_at_alt:
  "literal_at s =
     (let sgn = (if s \<noteq> [] \<and> hd s = minus_sign then [minus_sign] else []);
          s1 = drop (length sgn) s;
          ds = takeWhile isDigit s1;
          fs = frac_at (dropWhile isDigit s1)
      in if ds = [] then None
         else Some (sgn @ ds @ (if fs = [] then [] else point # fs)))"
  by (simp add: literal_at_def frac_at_def Let_def)

lemma minus_not_digit: "\<not> isDigit minus_sign"
  by (simp add: isDigit_def minus_sign_def)

lemma number_re_first:
  "(case number_re s of [] \<Rightarrow> None | (g, r) # alts \<Rightarrow> Some (g, r)) =
     (case literal_at s of None \<Rightarrow> None | Some l \<Rightarrow> Some (l, drop (length l) s))"
proof (cases "s \<noteq> [] \<and> hd s = minus_sign")
  case True
  then obtain t where s: "s = minus_sign # t" by (cases s) auto
  have n: "seq (many1 isDigit) (opt (seq (lit point) (many1 isDigit))) s = []"
    by (rule digits_none) (simp add: s minus_not_digit)
  have o: "opt (lit minus_sign) s = [([minus_sign], t), ([], s)]"
    by (simp add: s opt_def lit_def)
  show ?thesis
  proof (cases "takeWhile isDigit t = []")
    case True
    then show ?thesis
      using n o digits_none [of t]
      by (simp add: number_re_def seq_def [of "opt (lit minus_sign)"] literal_at_alt s)
  next
    case False
    then obtain alts where "seq (many1 isDigit) (opt (seq (lit point) (many1 isDigit))) t =
        (lit_tail t, drop (length (lit_tail t)) t) # alts"
      using digits_hd by blast
    then show ?thesis
      using n o False
      by (simp add: number_re_def seq_def [of "opt (lit minus_sign)"] literal_at_alt s
          lit_tail_def Let_def)
  qed
next
  case False
  then have o: "opt (lit minus_sign) s = [([], s)]"
    by (cases s) (auto simp: opt_def lit_def)
  from False have g: "(s \<noteq> [] \<and> hd s = minus_sign) = False" by simp
  show ?thesis
  proof (cases "takeWhile isDigit s = []")
    case True
    then show ?thesis
      using o digits_none [of s]
      by (simp add: number_re_def seq_def [of "opt (lit minus_sign)"] literal_at_alt Let_def g)
  next
    case nonempty: False
    then obtain alts where "seq (many1 isDigit) (opt (seq (lit point) (many1 isDigit))) s =
        (lit_tail s, drop (length (lit_tail s)) s) # alts"
      using digits_hd by blast
    then show ?thesis
      using o nonempty
      by (simp add: number_re_def seq_def [of "opt (lit minus_sign)"] literal_at_alt
          lit_tail_def Let_def g)
  qed
qed

lemma reading_re_first:
  "(case reading_re s of [] \<Rightarrow> None | (g, r) # alts \<Rightarrow> Some g) =
     (case number_re s of [] \<Rightarrow> None | (g1, r1) # alts \<Rightarrow> Some (g1, unit_token r1))"
proof (cases "number_re s")
  case Nil
  then show ?thesis by (simp add: reading_re_def)
next
  case (Cons a alts)
  obtain g1 r1 where a: "a = (g1, r1)" by (cases a)
  show ?thesis
    by (simp add: reading_re_def Cons a many_hd unit_token_def)
qed

lemma match_at_literal:
  "match_at s =
     (case literal_at s of None \<Rightarrow> None
      | Some l \<Rightarrow> Some (l, unit_token (drop (length l) s)))"
proof -
  have "match_at s = (case number_re s of [] \<Rightarrow> None | (g1, r1) # alts \<Rightarrow> Some (g1, unit_token r1))"
    unfolding match_at_def by (rule reading_re_first)
  also have "\<dots> = (case (case number_re s of [] \<Rightarrow> None | (g, r) # alts \<Rightarrow> Some (g, r)) of
       None \<Rightarrow> None | Some (g1, r1) \<Rightarrow> Some (g1, unit_token r1))"
    by (simp split: list.splits)
  finally show ?thesis
    by (simp add: number_re_first split: option.splits)
qed

lemma exec_first_literal:
  "exec line =
     (case first_literal line of None \<Rightarrow> None
      | Some (l, rest) \<Rightarrow> Some (l, unit_token rest))"
proof (induction line)
  case Nil
  show ?case by (simp add: match_at_literal literal_at_def)
next
  case (Cons c cs)
  then show ?case by (simp add: match_at_literal split: option.splits)
qed

lemma literal_at_None: "(literal_at (c # cs) = None) \<Longrightarrow> \<not> isDigit c"
  by (auto simp: literal_at_def Let_def minus_not_digit split: if_splits)

lemma literal_at_digit: "isDigit c \<Longrightarrow> literal_at (c # cs) \<noteq> None"
  by (auto simp: literal_at_def Let_def minus_not_digit split: if_splits)

lemma literal_at_Some_digit:
  assumes "literal_at s = Some l"
  shows "filter isDigit s \<noteq> []"
proof -
  define n where "n = length (if s \<noteq> [] \<and> hd s = minus_sign then [minus_sign] else [])"
  from assms have ne: "takeWhile isDigit (drop n s) \<noteq> []"
    by (auto simp: literal_at_def Let_def n_def split: if_splits)
  then obtain d ds where "drop n s = d # ds" "isDigit d"
    by (cases "drop n s") (auto split: if_splits)
  then have "d \<in> set (drop n s)" "isDigit d" by simp_all
  then have "d \<in> set s" by (meson in_set_dropD)
  with \<open>isDigit d\<close> show ?thesis by (auto simp: filter_empty_conv)
qed

lemma first_literal_None: "(first_literal line = None) = (filter isDigit line = [])"
proof (induction line)
  case Nil
  show ?case by simp
next
  case (Cons c cs)
  show ?case
  proof (cases "literal_at (c # cs)")
    case None
    with Cons literal_at_None [of c cs] show ?thesis by simp
  next
    case (Some l)
    from literal_at_Some_digit [OF Some] show ?thesis using Some by simp
  qed
qed

lemma drop_length_append3:
  "drop (length (a @ b @ c)) s = drop (length c) (drop (length b) (drop (length a) s))"
  by (simp add: ac_simps)

lemma literal_at_prefix:
  assumes "literal_at s = Some l"
  shows "l @ drop (length l) s = s"
proof -
  let ?sgn = "if s \<noteq> [] \<and> hd s = minus_sign then [minus_sign] else []"
  let ?s1 = "drop (length ?sgn) s"
  let ?fs = "frac_at (dropWhile isDigit ?s1)"
  let ?fr = "if ?fs = [] then [] else point # ?fs"
  from assms have "(if takeWhile isDigit ?s1 = [] then None
      else Some (?sgn @ takeWhile isDigit ?s1 @ ?fr)) = Some l"
    unfolding literal_at_alt Let_def .
  then have l: "l = ?sgn @ takeWhile isDigit ?s1 @ ?fr"
    by (metis option.distinct(1) option.inject)
  have a: "?sgn @ ?s1 = s"
    by (cases s) auto
  have c: "?fr @ drop (length ?fr) (dropWhile isDigit ?s1) = dropWhile isDigit ?s1"
  proof (cases "?fs = []")
    case True
    then show ?thesis by simp
  next
    case False
    then obtain t where t: "dropWhile isDigit ?s1 = point # t" "?fs = takeWhile isDigit t"
      by (cases "dropWhile isDigit ?s1") (auto simp: frac_at_def split: if_splits)
    have "takeWhile isDigit t @ drop (length (takeWhile isDigit t)) t = t"
      by (metis takeWhile_dropWhile_id dropWhile_eq_drop)
    with False t show ?thesis by simp
  qed
  have "drop (length l) s =
      drop (length ?fr) (drop (length (takeWhile isDigit ?s1)) (drop (length ?sgn) s))"
    unfolding l by (rule drop_length_append3)
  also have "drop (length (takeWhile isDigit ?s1)) ?s1 = dropWhile isDigit ?s1"
    by (rule dropWhile_eq_drop [symmetric])
  finally have d: "drop (length l) s = drop (length ?fr) (dropWhile isDigit ?s1)" .
  have "l @ drop (length l) s =
      ?sgn @ takeWhile isDigit ?s1 @ ?fr @ drop (length ?fr) (dropWhile isDigit ?s1)"
    unfolding d unfolding l by (simp only: append_assoc)
  also have "\<dots> = ?sgn @ takeWhile isDigit ?s1 @ dropWhile isDigit ?s1"
    unfolding c ..
  also have "\<dots> = s"
    unfolding takeWhile_dropWhile_id by (rule a)
  finally show ?thesis .
qed

lemma first_literal_decomp:
  "first_literal line = Some (l, rest) \<Longrightarrow>
     \<exists>pre. line = pre @ l @ rest \<and> filter isDigit pre = [] \<and> literal_at (l @ rest) = Some l"
proof (induction line)
  case Nil
  then show ?case by simp
next
  case (Cons c cs)
  show ?case
  proof (cases "literal_at (c # cs)")
    case None
    with Cons.prems have "first_literal cs = Some (l, rest)" by simp
    then obtain pre where "cs = pre @ l @ rest" "filter isDigit pre = []"
        "literal_at (l @ rest) = Some l"
      using Cons.IH by blast
    moreover from None have "\<not> isDigit c" by (rule literal_at_None)
    ultimately have "c # cs = (c # pre) @ l @ rest \<and> filter isDigit (c # pre) = []
        \<and> literal_at (l @ rest) = Some l"
      by simp
    then show ?thesis by blast
  next
    case (Some l')
    with Cons.prems have l: "l' = l" and r: "rest = drop (length l) (c # cs)" by auto
    from Some l have la: "literal_at (c # cs) = Some l" by simp
    from literal_at_prefix [OF la] r have "c # cs = [] @ l @ rest" by simp
    with la show ?thesis by (metis append_Nil filter.simps(1))
  qed
qed

text \<open>
  C1. The parser is the best-effort scan of the specification: for every line the
  reading built from the regular expression match is the one built from the first
  numeric literal of the line (its value the literal given to \<^verbatim>\<open>parseFloat\<close>, its
  unit the token of letters, percent and slash after optional white space); \<open>raw\<close> is
  the line; the value is absent exactly when the line has no digit, that is no numeric
  literal, and then the unit is empty. The four examples of the specification hold.
\<close>

theorem parse_first_literal:
  "reading_of pf line = spec_parse pf line
   \<and> raw (reading_of pf line) = line
   \<and> (val (reading_of pf line) = None) = (filter isDigit line = [])
   \<and> (filter isDigit line = [] \<longrightarrow> unit (reading_of pf line) = [])
   \<and> reading_of pf (js ''S S     120.45 g'')
       = \<lparr>raw = js ''S S     120.45 g'', val = Some (pf (js ''120.45'')), unit = js ''g''\<rparr>
   \<and> reading_of pf (js ''120.45'')
       = \<lparr>raw = js ''120.45'', val = Some (pf (js ''120.45'')), unit = []\<rparr>
   \<and> reading_of pf (js ''ES'') = \<lparr>raw = js ''ES'', val = None, unit = []\<rparr>
   \<and> reading_of pf (js ''-3.2 %'')
       = \<lparr>raw = js ''-3.2 %'', val = Some (pf (js ''-3.2'')), unit = js ''%''\<rparr>"
proof -
  have e: "reading_of pf l = spec_parse pf l" for l
    by (simp add: reading_of_def spec_parse_def exec_first_literal split: option.splits)
  have r: "raw (spec_parse pf line) = line"
    by (simp add: spec_parse_def split: option.splits)
  have v: "(val (spec_parse pf line) = None) = (filter isDigit line = [])"
    using first_literal_None [of line] by (auto simp add: spec_parse_def split: option.splits)
  have u: "filter isDigit line = [] \<longrightarrow> unit (spec_parse pf line) = []"
    using first_literal_None [of line] by (auto simp add: spec_parse_def split: option.splits)
  have x1: "spec_parse pf (js ''S S     120.45 g'')
       = \<lparr>raw = js ''S S     120.45 g'', val = Some (pf (js ''120.45'')), unit = js ''g''\<rparr>"
    by (simp add: spec_parse_def js_def literal_at_def unit_token_def isDigit_def isSpace_def
        isUnitChar_def minus_sign_def point_def)
  have x2: "spec_parse pf (js ''120.45'')
       = \<lparr>raw = js ''120.45'', val = Some (pf (js ''120.45'')), unit = []\<rparr>"
    by (simp add: spec_parse_def js_def literal_at_def unit_token_def isDigit_def isSpace_def
        isUnitChar_def minus_sign_def point_def)
  have x3: "spec_parse pf (js ''ES'') = \<lparr>raw = js ''ES'', val = None, unit = []\<rparr>"
    by (simp add: spec_parse_def js_def literal_at_def unit_token_def isDigit_def isSpace_def
        isUnitChar_def minus_sign_def point_def)
  have x4: "spec_parse pf (js ''-3.2 %'')
       = \<lparr>raw = js ''-3.2 %'', val = Some (pf (js ''-3.2'')), unit = js ''%''\<rparr>"
    by (simp add: spec_parse_def js_def literal_at_def unit_token_def isDigit_def isSpace_def
        isUnitChar_def minus_sign_def point_def)
  show ?thesis
    unfolding e using r v u x1 x2 x3 x4 by blast
qed

theorem parse_first_literal_witness:
  "filter isDigit (js ''ES'') = []
   \<and> unit (reading_of (\<lambda>l. l) (js ''ES'')) = []
   \<and> val (reading_of (\<lambda>l. l) (js ''ES'')) = None
   \<and> val (reading_of (\<lambda>l. l) (js ''-3.2 %'')) = Some (js ''-3.2'')"
proof -
  have d: "filter isDigit (js ''ES'') = []"
    by (simp add: js_def isDigit_def)
  note t = parse_first_literal [of "\<lambda>l. l" "js ''ES''"]
  from t d have u: "unit (reading_of (\<lambda>l. l) (js ''ES'')) = []" by blast
  from t have "reading_of (\<lambda>l. l) (js ''ES'') = \<lparr>raw = js ''ES'', val = None, unit = []\<rparr>"
    by blast
  then have v: "val (reading_of (\<lambda>l. l) (js ''ES'')) = None" by simp
  from t have "reading_of (\<lambda>l. l) (js ''-3.2 %'')
      = \<lparr>raw = js ''-3.2 %'', val = Some (js ''-3.2''), unit = js ''%''\<rparr>"
    by blast
  then have w: "val (reading_of (\<lambda>l. l) (js ''-3.2 %'')) = Some (js ''-3.2'')" by simp
  from d u v w show ?thesis by blast
qed

section \<open>The Web Serial transport\<close>

text \<open>
  serial.js, class \<^verbatim>\<open>WebSerialTransport\<close>. The state is the four private fields,
  followed by the outside as the transport has left it: the serial ports that are
  open, the events it dispatched and the calls it made on the Web Serial objects, both
  oldest first. A serial port is known by its handle; \<^verbatim>\<open>#port\<close> is \<open>None\<close> for
  \<^verbatim>\<open>null\<close> and \<open>Some h\<close> when it refers to the port \<open>h\<close>. A port that was opened
  stays in \<open>open_ports\<close> until it is closed, whether or not \<^verbatim>\<open>#port\<close> still refers
  to it. \<^verbatim>\<open>#writer\<close> and \<^verbatim>\<open>#reader\<close> are \<open>True\<close> when they hold an object.
\<close>

type_synonym port_handle = nat

datatype 'n event =
    Connected
  | Disconnected
  | Reading "'n reading"
  | Log jstring
  | Error jstring

datatype call =
    RequestPort
  | OpenPort
  | GetWriter
  | GetReader
  | ReadChunk
  | CancelReader
  | ReleaseReader
  | ReleaseWriter
  | ClosePort
  | WriteEncoded jstring

record 'n transport =
  port :: "port_handle option"
  writer :: bool
  reader :: bool
  readLoopRunning :: bool
  open_ports :: "port_handle set"
  dispatched :: "'n event list"
  calls :: "call list"

text \<open>What a call on a platform object does: it returns, or throws an error with a message.\<close>

datatype outcome = Returns | Throws jstring

text \<open>\<^verbatim>\<open>#emit(type, detail)\<close>\<close>

definition emit :: "'n event \<Rightarrow> 'n transport \<Rightarrow> 'n transport" where
  "emit e s = s\<lparr>dispatched := dispatched s @ [e]\<rparr>"

definition called :: "call \<Rightarrow> 'n transport \<Rightarrow> 'n transport" where
  "called c s = s\<lparr>calls := calls s @ [c]\<rparr>"

text \<open>The transport as constructed: every field \<^verbatim>\<open>null\<close> or \<^verbatim>\<open>false\<close>.\<close>

definition new_transport :: "'n transport" where
  "new_transport = \<lparr>port = None, writer = False, reader = False, readLoopRunning = False,
     open_ports = {}, dispatched = [], calls = []\<rparr>"

subsection \<open>parseLine\<close>

text \<open>\<^verbatim>\<open>#parseLine(line)\<close>: a log event, then the reading event.\<close>

definition parseLine :: "(jstring \<Rightarrow> 'n) \<Rightarrow> jstring \<Rightarrow> 'n transport \<Rightarrow> 'n transport" where
  "parseLine parseFloat line s =
     emit (Reading (reading_of parseFloat line)) (emit (Log (js ''Received: '' @ line)) s)"

subsection \<open>The read loop\<close>

text \<open>
  \<^verbatim>\<open>
  async #readLoop() {
    const decoder = new TextDecoder();
    this.#reader = this.#port.readable.getReader();
    this.#readLoopRunning = true;
    let buffer = '';
    try {
      while (this.#readLoopRunning) {
        const { value, done } = await this.#reader.read();
        if (done) break;
        if (value) { ... the framing above ... }
      }
    } catch (err) {
      if (this.#readLoopRunning) {
        this.#emit('error', { message: 'Read error: ' + err.message });
      }
    } finally {
      try { this.#reader.releaseLock(); } catch (_) {}
      this.#reader = null;
    }
  }
  \<close>
  \<open>readLoop_start\<close> is the part that runs inside \<^verbatim>\<open>connect\<close>, up to the first
  \<^verbatim>\<open>await\<close>. When \<^verbatim>\<open>getReader\<close> throws, the exception is raised before the
  \<^verbatim>\<open>try\<close>: the promise of \<^verbatim>\<open>#readLoop\<close>, which nobody awaits, is rejected and no
  field changes.
\<close>

definition readLoop_start :: "outcome \<Rightarrow> 'n transport \<Rightarrow> 'n transport" where
  "readLoop_start getReader s =
     (case getReader of
        Throws msg \<Rightarrow> called GetReader s
      | Returns \<Rightarrow> (called GetReader s)\<lparr>reader := True, readLoopRunning := True\<rparr>)"

text \<open>
  The \<^verbatim>\<open>catch\<close> and \<^verbatim>\<open>finally\<close> blocks. \<^verbatim>\<open>releaseLock\<close> is called on the reader when
  the field holds one (on \<^verbatim>\<open>null\<close> the call is a TypeError); whatever it throws is
  dropped, and the field is cleared.
\<close>

definition readLoop_catch :: "jstring \<Rightarrow> 'n transport \<Rightarrow> 'n transport" where
  "readLoop_catch msg s =
     (if readLoopRunning s then emit (Error (js ''Read error: '' @ msg)) s else s)"

definition readLoop_finally :: "'n transport \<Rightarrow> 'n transport" where
  "readLoop_finally s = (if reader s then called ReleaseReader s else s)\<lparr>reader := False\<rparr>"

text \<open>
  What one \<^verbatim>\<open>await this.#reader.read()\<close> resolves to: a chunk (given as the text the
  streaming decoder returns for it; a chunk is a byte array, which is always truthy),
  the end of the stream (\<^verbatim>\<open>done\<close>), or a rejection. While the loop is suspended in the
  read, \<^verbatim>\<open>disconnect\<close> may run and clear \<^verbatim>\<open>#readLoopRunning\<close>: the flag of each step.
\<close>

datatype read_result = Chunk jstring | Done | ReadFails jstring

text \<open>
  The loop leaves through \<^verbatim>\<open>finally\<close> (\<open>Exited\<close>), or it is suspended in a read that
  has not resolved, with its pending buffer.
\<close>

datatype loop_status = Exited | Pending jstring

fun readLoop_iter ::
  "(jstring \<Rightarrow> 'n) \<Rightarrow> (bool \<times> read_result) list \<Rightarrow> jstring \<Rightarrow> 'n transport
     \<Rightarrow> loop_status \<times> 'n transport" where
  "readLoop_iter parseFloat [] buffer s =
     (if readLoopRunning s then (Pending buffer, called ReadChunk s)
      else (Exited, readLoop_finally s))"
| "readLoop_iter parseFloat ((stopped, r) # steps) buffer s =
     (if readLoopRunning s then
        (let s1 = called ReadChunk s;
             s2 = (if stopped then s1\<lparr>readLoopRunning := False\<rparr> else s1)
         in case r of
              Done \<Rightarrow> (Exited, readLoop_finally s2)
            | ReadFails msg \<Rightarrow> (Exited, readLoop_finally (readLoop_catch msg s2))
            | Chunk text \<Rightarrow>
                readLoop_iter parseFloat steps (snd (feed buffer text))
                  (foldl (\<lambda>s' line. parseLine parseFloat line s') s2 (fst (feed buffer text))))
      else (Exited, readLoop_finally s))"

subsection \<open>connect\<close>

text \<open>
  \<^verbatim>\<open>
  async connect() {
    try {
      this.#port = await navigator.serial.requestPort();
      await this.#port.open({ baudRate: 9600, dataBits: 8, stopBits: 1, parity: 'none' });
      this.#writer = this.#port.writable.getWriter();
      this.#emit('connected');
      this.#emit('log', { message: 'Serial port opened (9600 8N1)' });
      this.#readLoop();
    } catch (err) {
      this.#emit('error', { message: 'Connect failed: ' + err.message });
      throw err;
    }
  }
  \<close>
  The result is \<open>Inl msg\<close> when the promise is rejected with an error of message \<open>msg\<close>.
  \<open>requested_port\<close> is the port that \<^verbatim>\<open>requestPort\<close> resolves to when it returns. The
  assignment to \<^verbatim>\<open>#port\<close> replaces whatever port the field referred to, without closing
  it.
  \<^verbatim>\<open>#readLoop()\<close> is not awaited: \<^verbatim>\<open>connect\<close> returns when the loop reaches its first
  read.
\<close>

record connect_env =
  requestPort_outcome :: outcome
  requested_port :: port_handle
  open_outcome :: outcome
  getWriter_outcome :: outcome
  getReader_outcome :: outcome

definition connect_catch :: "jstring \<Rightarrow> 'n transport \<Rightarrow> (jstring + unit) \<times> 'n transport" where
  "connect_catch msg s = (Inl msg, emit (Error (js ''Connect failed: '' @ msg)) s)"

definition connect :: "connect_env \<Rightarrow> 'n transport \<Rightarrow> (jstring + unit) \<times> 'n transport" where
  "connect env s =
     (case requestPort_outcome env of
        Throws msg \<Rightarrow> connect_catch msg (called RequestPort s)
      | Returns \<Rightarrow>
          (let s1 = (called RequestPort s)\<lparr>port := Some (requested_port env)\<rparr> in
           case open_outcome env of
             Throws msg \<Rightarrow> connect_catch msg (called OpenPort s1)
           | Returns \<Rightarrow>
               (let s2 = (called OpenPort s1)
                          \<lparr>open_ports := insert (requested_port env) (open_ports s1)\<rparr> in
                case getWriter_outcome env of
                  Throws msg \<Rightarrow> connect_catch msg (called GetWriter s2)
                | Returns \<Rightarrow>
                    (let s3 = (called GetWriter s2)\<lparr>writer := True\<rparr>;
                         s4 = emit Connected s3;
                         s5 = emit (Log (js ''Serial port opened (9600 8N1)'')) s4
                     in (Inr (), readLoop_start (getReader_outcome env) s5)))))"

subsection \<open>disconnect\<close>

text \<open>
  \<^verbatim>\<open>
  async disconnect() {
    this.#readLoopRunning = false;
    try {
      if (this.#reader) {
        await this.#reader.cancel();
        this.#reader.releaseLock();
        this.#reader = null;
      }
    } catch (_) { /* reader may already be released */ }
    try {
      if (this.#writer) {
        this.#writer.releaseLock();
        this.#writer = null;
      }
    } catch (_) { /* writer may already be released */ }
    try {
      if (this.#port) {
        await this.#port.close();
        this.#port = null;
      }
    } catch (err) {
      this.#emit('error', { message: 'Close error: ' + err.message });
    }
    this.#emit('disconnected');
    this.#emit('log', { message: 'Serial port closed' });
  }
  \<close>
  \<open>disconnect_begin\<close> runs up to \<^verbatim>\<open>await this.#reader.cancel()\<close> and tells whether
  that call was made. While \<^verbatim>\<open>disconnect\<close> is suspended there the read loop may leave
  through its \<^verbatim>\<open>finally\<close> block (a cancelled reader resolves the pending read), which
  clears \<^verbatim>\<open>#reader\<close>; \<^verbatim>\<open>this.#reader.releaseLock()\<close> is then a TypeError, caught.
  \<open>disconnect_resume\<close> is the rest.
\<close>

record disconnect_env =
  cancel_outcome :: outcome
  loop_exits_during_cancel :: bool
  readerRelease_outcome :: outcome
  writerRelease_outcome :: outcome
  close_outcome :: outcome

definition disconnect_begin :: "'n transport \<Rightarrow> bool \<times> 'n transport" where
  "disconnect_begin s =
     (let s0 = s\<lparr>readLoopRunning := False\<rparr>
      in if reader s0 then (True, called CancelReader s0) else (False, s0))"

definition release_reader :: "disconnect_env \<Rightarrow> bool \<Rightarrow> 'n transport \<Rightarrow> 'n transport" where
  "release_reader env cancelling s =
     (if cancelling then
        (case cancel_outcome env of
           Throws msg \<Rightarrow> s
         | Returns \<Rightarrow>
             if reader s then
               (case readerRelease_outcome env of
                  Throws msg \<Rightarrow> called ReleaseReader s
                | Returns \<Rightarrow> (called ReleaseReader s)\<lparr>reader := False\<rparr>)
             else s)
      else s)"

definition release_writer :: "disconnect_env \<Rightarrow> 'n transport \<Rightarrow> 'n transport" where
  "release_writer env s =
     (if writer s then
        (case writerRelease_outcome env of
           Throws msg \<Rightarrow> called ReleaseWriter s
         | Returns \<Rightarrow> (called ReleaseWriter s)\<lparr>writer := False\<rparr>)
      else s)"

definition close_port :: "disconnect_env \<Rightarrow> 'n transport \<Rightarrow> 'n transport" where
  "close_port env s =
     (case port s of
        None \<Rightarrow> s
      | Some h \<Rightarrow>
          (case close_outcome env of
             Throws msg \<Rightarrow> emit (Error (js ''Close error: '' @ msg)) (called ClosePort s)
           | Returns \<Rightarrow> (called ClosePort s)\<lparr>port := None, open_ports := open_ports s - {h}\<rparr>))"

definition disconnect_resume :: "disconnect_env \<Rightarrow> bool \<Rightarrow> 'n transport \<Rightarrow> 'n transport" where
  "disconnect_resume env cancelling s =
     emit (Log (js ''Serial port closed''))
       (emit Disconnected (close_port env (release_writer env (release_reader env cancelling s))))"

definition disconnect :: "disconnect_env \<Rightarrow> 'n transport \<Rightarrow> 'n transport" where
  "disconnect env s =
     (let (cancelling, s1) = disconnect_begin s;
          s2 = (if cancelling \<and> loop_exits_during_cancel env then readLoop_finally s1 else s1)
      in disconnect_resume env cancelling s2)"

subsection \<open>send\<close>

text \<open>
  \<^verbatim>\<open>
  async send(cmd) {
    if (!this.#writer) {
      this.#emit('error', { message: 'Not connected' });
      return;
    }
    const data = new TextEncoder().encode(cmd.trim() + '\r\n');
    await this.#writer.write(data);
    this.#emit('log', { message: 'Sent: ' + cmd.trim() });
  }
  \<close>
  \<open>WriteEncoded t\<close> is the call \<^verbatim>\<open>write(new TextEncoder().encode(t))\<close>: the bytes
  written are the UTF-8 encoding of \<open>t\<close>. The result is \<open>Inl msg\<close> when the promise is
  rejected, that is when the error reaches the caller.
\<close>

definition send :: "outcome \<Rightarrow> jstring \<Rightarrow> 'n transport \<Rightarrow> (jstring + unit) \<times> 'n transport" where
  "send write_outcome cmd s =
     (if \<not> writer s then (Inr (), emit (Error (js ''Not connected'')) s)
      else
        (let s1 = called (WriteEncoded (trim cmd @ [CR, LF])) s
         in case write_outcome of
              Throws msg \<Rightarrow> (Inl msg, s1)
            | Returns \<Rightarrow> (Inr (), emit (Log (js ''Sent: '' @ trim cmd)) s1)))"

subsection \<open>Scenarios\<close>

text \<open>
  A transport after a successful \<^verbatim>\<open>connect\<close> to port 0, a \<^verbatim>\<open>disconnect\<close> in which
  every release succeeds, a \<^verbatim>\<open>connect\<close> to port 0 in which the writer cannot be
  acquired, and a \<^verbatim>\<open>connect\<close> in which the user picks port 1, which cannot be opened.
\<close>

definition connected_transport :: "jstring transport" where
  "connected_transport = \<lparr>port = Some 0, writer = True, reader = True, readLoopRunning = True,
     open_ports = {0}, dispatched = [], calls = []\<rparr>"

definition all_release :: disconnect_env where
  "all_release = \<lparr>cancel_outcome = Returns, loop_exits_during_cancel = True,
     readerRelease_outcome = Returns, writerRelease_outcome = Returns, close_outcome = Returns\<rparr>"

definition writer_locked :: connect_env where
  "writer_locked = \<lparr>requestPort_outcome = Returns, requested_port = 0,
     open_outcome = Returns, getWriter_outcome = Throws (js ''locked''),
     getReader_outcome = Returns\<rparr>"

definition open_refused :: connect_env where
  "open_refused = \<lparr>requestPort_outcome = Returns, requested_port = 1,
     open_outcome = Throws (js ''busy''), getWriter_outcome = Returns,
     getReader_outcome = Returns\<rparr>"

section \<open>Properties of the read loop\<close>

text \<open>
  The events one line gives rise to, and the complete lines of a received text: the
  segments that a line feed terminates. \<open>lines_of\<close> collects the characters of the
  current line and closes it at each line feed; \<open>unfinished\<close> is what is left in the
  end, the text after the last line feed.
\<close>

definition line_events :: "(jstring \<Rightarrow> 'n) \<Rightarrow> jstring list \<Rightarrow> 'n event list" where
  "line_events parseFloat lines =
     concat (map (\<lambda>l. [Log (js ''Received: '' @ l), Reading (reading_of parseFloat l)]) lines)"

fun lines_of :: "jstring \<Rightarrow> jstring \<Rightarrow> jstring list" where
  "lines_of cur [] = []"
| "lines_of cur (c # cs) = (if c = LF then rev cur # lines_of [] cs else lines_of (c # cur) cs)"

fun unfinished :: "jstring \<Rightarrow> jstring \<Rightarrow> jstring" where
  "unfinished cur [] = rev cur"
| "unfinished cur (c # cs) = (if c = LF then unfinished [] cs else unfinished (c # cur) cs)"

text \<open>
  What is expected of the framing, stated on its own terms and not through \<open>trim\<close> or
  \<open>trim_line\<close>. A line is blank when it holds nothing but white space. \<open>lstrip\<close> and
  \<open>rstrip\<close> remove the white space at the start and at the end of a text.
\<close>

definition blank :: "jstring \<Rightarrow> bool" where
  "blank l = list_all isSpace l"

fun lstrip :: "jstring \<Rightarrow> jstring" where
  "lstrip [] = []"
| "lstrip (c # cs) = (if isSpace c then lstrip cs else c # cs)"

fun rstrip :: "jstring \<Rightarrow> jstring" where
  "rstrip [] = []"
| "rstrip (c # cs) = (if isSpace c \<and> rstrip cs = [] then [] else c # rstrip cs)"

text \<open>
  The lines of the specification (4.1): of every complete line the trailing carriage
  return is stripped and the surrounding white space trimmed; lines that are then
  empty are discarded.
\<close>

definition strip_trailing_cr :: "jstring \<Rightarrow> jstring" where
  "strip_trailing_cr l = (if l \<noteq> [] \<and> last l = CR then butlast l else l)"

definition spec_framed :: "jstring \<Rightarrow> jstring" where
  "spec_framed l = rstrip (lstrip (strip_trailing_cr l))"

definition spec_lines :: "jstring \<Rightarrow> jstring list" where
  "spec_lines t = filter (\<lambda>l. l \<noteq> []) (map spec_framed (lines_of [] t))"

text \<open>
  The lines with every carriage return removed, wherever it stands in the line, before
  the surrounding white space is trimmed; blank lines are left out.
\<close>

fun without_cr :: "jstring \<Rightarrow> jstring" where
  "without_cr [] = []"
| "without_cr (c # cs) = (if c = CR then without_cr cs else c # without_cr cs)"

definition framed :: "jstring \<Rightarrow> jstring" where
  "framed l = rstrip (lstrip (without_cr l))"

definition framed_lines :: "jstring \<Rightarrow> jstring list" where
  "framed_lines t = map framed (filter (\<lambda>l. \<not> blank l) (lines_of [] t))"

lemma lines_of_split:
  "lines_of cur t =
     (case split_lf t of [] \<Rightarrow> [] | [x] \<Rightarrow> [] | x # y # ys \<Rightarrow> (rev cur @ x) # butlast (y # ys))"
proof (induction t arbitrary: cur)
  case Nil
  show ?case by simp
next
  case (Cons c cs)
  have ne: "split_lf cs \<noteq> []" by (rule split_lf_nonempty)
  show ?case
  proof (cases "c = LF")
    case True
    then show ?thesis using ne Cons [of "[]"]
      by (cases "split_lf cs") (auto split: list.splits)
  next
    case False
    then show ?thesis using ne Cons [of "c # cur"]
      by (cases "split_lf cs") (auto split: list.splits)
  qed
qed

lemma unfinished_split:
  "unfinished cur t =
     (case split_lf t of [] \<Rightarrow> rev cur | [x] \<Rightarrow> rev cur @ x | x # y # ys \<Rightarrow> last (y # ys))"
proof (induction t arbitrary: cur)
  case Nil
  show ?case by simp
next
  case (Cons c cs)
  have ne: "split_lf cs \<noteq> []" by (rule split_lf_nonempty)
  show ?case
  proof (cases "c = LF")
    case True
    then show ?thesis using ne Cons [of "[]"]
      by (cases "split_lf cs") (auto split: list.splits)
  next
    case False
    then show ?thesis using ne Cons [of "c # cur"]
      by (cases "split_lf cs") (auto split: list.splits)
  qed
qed

lemma last_split_lf: "last (split_lf t) = unfinished [] t"
  using split_lf_nonempty [of t]
  by (auto simp: unfinished_split split: list.splits)

lemma feed_lines_of:
  "fst (feed [] t) = filter (\<lambda>l. l \<noteq> []) (map trim_line (lines_of [] t))"
  using split_lf_nonempty [of t]
  by (auto simp: feed_def lines_of_split split: list.splits)

lemma without_cr_filter: "without_cr l = filter (\<lambda>c. c \<noteq> CR) l"
  by (induction l) auto

lemma lstrip_dropWhile: "lstrip l = dropWhile isSpace l"
  by (induction l) auto

lemma rstrip_empty: "(rstrip l = []) = list_all isSpace l"
  by (induction l) auto

lemma rstrip_rev: "rstrip l = rev (dropWhile isSpace (rev l))"
proof (induction l)
  case Nil
  show ?case by simp
next
  case (Cons c cs)
  show ?case
  proof (cases "list_all isSpace cs")
    case True
    then have a: "\<forall>x\<in>set (rev cs). isSpace x" by (simp add: list_all_iff)
    have "dropWhile isSpace (rev cs @ [c]) = dropWhile isSpace [c]"
      using a by (simp add: dropWhile_append)
    with True show ?thesis by (simp add: rstrip_empty)
  next
    case False
    then have a: "\<not> (\<forall>x\<in>set (rev cs). isSpace x)" by (simp add: list_all_iff)
    have d: "dropWhile isSpace (rev cs @ [c]) = dropWhile isSpace (rev cs) @ [c]"
      using a by (simp add: dropWhile_append)
    from False have ne: "rstrip cs \<noteq> []" by (simp add: rstrip_empty)
    from ne have "rstrip (c # cs) = c # rstrip cs" by simp
    also have "\<dots> = c # rev (dropWhile isSpace (rev cs))" by (simp only: Cons)
    also have "\<dots> = rev (dropWhile isSpace (rev (c # cs)))" by (simp add: d)
    finally show ?thesis .
  qed
qed

lemma trim_strip: "trim l = rstrip (lstrip l)"
  by (simp add: trim_def rstrip_rev lstrip_dropWhile)

lemma trim_line_framed: "trim_line l = framed l"
  by (simp add: trim_line_def framed_def trim_strip without_cr_filter)

lemma CR_space: "isSpace CR"
  by (simp add: isSpace_def CR_def)

lemma lstrip_empty: "(lstrip l = []) = list_all isSpace l"
  by (induction l) auto

lemma lstrip_spaces: "list_all isSpace l \<Longrightarrow> list_all isSpace (lstrip l)"
  by (induction l) auto

lemma framed_empty: "(framed l = []) = blank l"
proof -
  have a: "list_all isSpace (without_cr l) = list_all isSpace l"
    by (induction l) (auto simp: CR_space)
  have "(rstrip (lstrip x) = []) = list_all isSpace x" for x
    by (induction x) (auto simp: rstrip_empty)
  then show ?thesis by (simp add: framed_def blank_def a)
qed

lemma feed_framed_lines: "fst (feed [] t) = framed_lines t"
proof -
  have "filter (\<lambda>l. l \<noteq> []) (map trim_line ls) = map framed (filter (\<lambda>l. \<not> blank l) ls)" for ls
    by (induction ls) (auto simp: trim_line_framed framed_empty)
  then show ?thesis
    by (simp add: feed_lines_of framed_lines_def)
qed

lemma trim_pad:
  assumes "list_all isSpace a" "list_all isSpace b"
  shows "trim (a @ c @ b) = trim c"
proof -
  from assms have a: "\<forall>x\<in>set a. isSpace x" and b: "\<forall>x\<in>set (rev b). isSpace x"
    by (simp_all add: list_all_iff)
  have 1: "dropWhile isSpace (a @ c @ b) = dropWhile isSpace (c @ b)"
    using a by (simp add: dropWhile_append)
  show ?thesis
  proof (cases "\<forall>x\<in>set c. isSpace x")
    case True
    with b have f: "dropWhile isSpace (c @ b) = []" and g: "dropWhile isSpace c = []"
      by auto
    show ?thesis unfolding trim_def 1 f g ..
  next
    case False
    then obtain x where "x \<in> set c" "\<not> isSpace x" by blast
    then have "dropWhile isSpace (c @ b) = dropWhile isSpace c @ b"
      by (rule dropWhile_append1)
    with 1 have "rev (dropWhile isSpace (a @ c @ b)) = rev b @ rev (dropWhile isSpace c)"
      by simp
    then have "dropWhile isSpace (rev (dropWhile isSpace (a @ c @ b)))
        = dropWhile isSpace (rev (dropWhile isSpace c))"
      using b by (simp add: dropWhile_append)
    then show ?thesis by (simp add: trim_def)
  qed
qed

lemma trim_decomp:
  "\<exists>a b. list_all isSpace a \<and> list_all isSpace b \<and> l = a @ trim l @ b"
proof -
  let ?d = "dropWhile isSpace l"
  have "?d = rev (dropWhile isSpace (rev ?d)) @ rev (takeWhile isSpace (rev ?d))"
    by (metis rev_append rev_rev_ident takeWhile_dropWhile_id)
  then have d: "?d = trim l @ rev (takeWhile isSpace (rev ?d))"
    unfolding trim_def .
  have "l = takeWhile isSpace l @ ?d" by simp
  with d have "l = takeWhile isSpace l @ trim l @ rev (takeWhile isSpace (rev ?d))" by simp
  moreover have "list_all isSpace (takeWhile isSpace l)"
    by (auto simp: list_all_iff dest: set_takeWhileD)
  moreover have "list_all isSpace (rev (takeWhile isSpace (rev ?d)))"
    by (auto simp: list_all_iff dest: set_takeWhileD)
  ultimately show ?thesis by blast
qed

lemma without_cr_spaces: "list_all isSpace l \<Longrightarrow> list_all isSpace (without_cr l)"
  by (induction l) auto

lemma without_cr_id: "CR \<notin> set l \<Longrightarrow> without_cr l = l"
  by (induction l) auto

lemma without_cr_append: "without_cr (x @ y) = without_cr x @ without_cr y"
  by (induction x) auto

lemma spec_framed_trim: "spec_framed l = trim l"
proof (cases "l \<noteq> [] \<and> last l = CR")
  case True
  then have l: "l = butlast l @ [CR]" by (metis append_butlast_last_id)
  have "trim ([] @ butlast l @ [CR]) = trim (butlast l)"
    by (rule trim_pad) (simp_all add: CR_space)
  with l have "trim l = trim (butlast l)" by simp
  with True show ?thesis by (simp add: spec_framed_def strip_trailing_cr_def trim_strip)
next
  case False
  then show ?thesis by (auto simp add: spec_framed_def strip_trailing_cr_def trim_strip)
qed

lemma framed_spec_framed:
  assumes "CR \<notin> set (spec_framed l)"
  shows "framed l = spec_framed l"
proof -
  obtain a b where ab: "list_all isSpace a" "list_all isSpace b" "l = a @ trim l @ b"
    using trim_decomp by blast
  from assms have c: "CR \<notin> set (trim l)" by (simp add: spec_framed_trim)
  have "without_cr l = without_cr (a @ trim l @ b)" using ab(3) by simp
  also have "\<dots> = without_cr a @ trim l @ without_cr b"
    by (simp add: without_cr_append without_cr_id [OF c])
  finally have w: "without_cr l = without_cr a @ trim l @ without_cr b" .
  have "trim (without_cr a @ trim l @ without_cr b) = trim (trim l)"
    by (rule trim_pad) (simp_all add: without_cr_spaces ab)
  moreover have "trim (a @ trim l @ b) = trim (trim l)"
    by (rule trim_pad) (simp_all add: ab)
  ultimately have "trim (without_cr l) = trim l"
    using w ab(3) by simp
  then show ?thesis by (simp add: framed_def trim_strip [symmetric] spec_framed_trim)
qed

lemma spec_framed_empty: "(spec_framed l = []) = blank l"
proof -
  have "(rstrip (lstrip x) = []) = list_all isSpace x" for x
    by (induction x) (auto simp: rstrip_empty)
  then have "(trim l = []) = blank l" by (simp add: trim_strip blank_def)
  then show ?thesis by (simp add: spec_framed_trim)
qed

lemma framed_lines_spec_lines:
  assumes "\<forall>l\<in>set (lines_of [] t). CR \<notin> set (spec_framed l)"
  shows "framed_lines t = spec_lines t"
proof -
  have "(\<forall>l\<in>set ls. CR \<notin> set (spec_framed l)) \<Longrightarrow>
      map framed (filter (\<lambda>l. \<not> blank l) ls) = filter (\<lambda>l. l \<noteq> []) (map spec_framed ls)" for ls
    by (induction ls) (auto simp: framed_spec_framed spec_framed_empty)
  with assms show ?thesis by (simp add: framed_lines_def spec_lines_def)
qed


lemma foldl_parseLine:
  "foldl (\<lambda>s' line. parseLine pf line s') s lines =
     s\<lparr>dispatched := dispatched s @ line_events pf lines\<rparr>"
proof (induction lines arbitrary: s)
  case Nil
  show ?case by (simp add: line_events_def)
next
  case (Cons l ls)
  have "foldl (\<lambda>s' line. parseLine pf line s') s (l # ls) =
      (parseLine pf l s)\<lparr>dispatched := dispatched (parseLine pf l s) @ line_events pf ls\<rparr>"
    by (simp add: Cons)
  also have "\<dots> = s\<lparr>dispatched := dispatched s @ line_events pf (l # ls)\<rparr>"
    by (simp add: parseLine_def emit_def line_events_def)
  finally show ?case .
qed

lemma feed_all_lines: "fst (feed_all [] chunks) = framed_lines (concat chunks)"
proof -
  have "snd (feed [] []) = []" by (simp add: feed_def)
  then have "feed_all [] chunks = feed [] (concat chunks)"
    using feed_all_concat [of "[]" "[]" chunks] by simp
  then show ?thesis by (simp add: feed_framed_lines)
qed

lemma feed_all_buffer: "snd (feed_all [] chunks) = unfinished [] (concat chunks)"
proof -
  have "snd (feed [] []) = []" by (simp add: feed_def)
  then have "feed_all [] chunks = feed [] (concat chunks)"
    using feed_all_concat [of "[]" "[]" chunks] by simp
  then show ?thesis by (simp add: feed_def Let_def last_split_lf)
qed

lemma readLoop_chunks:
  assumes "readLoopRunning s"
  shows "readLoop_iter pf (map (\<lambda>c. (False, Chunk c)) chunks @ steps) buffer s =
     readLoop_iter pf steps (snd (feed_all buffer chunks))
       (s\<lparr>dispatched := dispatched s @ line_events pf (fst (feed_all buffer chunks)),
          calls := calls s @ replicate (length chunks) ReadChunk\<rparr>)"
  using assms
proof (induction chunks arbitrary: buffer s)
  case Nil
  show ?case by (simp add: line_events_def)
next
  case (Cons c cs)
  let ?s2 = "foldl (\<lambda>s' line. parseLine pf line s') (called ReadChunk s) (fst (feed buffer c))"
  have r: "readLoopRunning ?s2"
    using Cons.prems by (simp add: foldl_parseLine called_def)
  have "readLoop_iter pf (map (\<lambda>c. (False, Chunk c)) (c # cs) @ steps) buffer s =
      readLoop_iter pf (map (\<lambda>c. (False, Chunk c)) cs @ steps) (snd (feed buffer c)) ?s2"
    using Cons.prems by simp
  also have "\<dots> = readLoop_iter pf steps (snd (feed_all (snd (feed buffer c)) cs))
       (?s2\<lparr>dispatched := dispatched ?s2 @ line_events pf (fst (feed_all (snd (feed buffer c)) cs)),
          calls := calls ?s2 @ replicate (length cs) ReadChunk\<rparr>)"
    by (rule Cons.IH [OF r])
  finally show ?case
    by (simp add: foldl_parseLine called_def case_prod_beta line_events_def replicate_append_same)
qed

lemma readLoop_dispatched:
  assumes "readLoopRunning s"
  shows "dispatched (snd (readLoop_iter pf (map (\<lambda>c. (False, Chunk c)) chunks) [] s)) =
     dispatched s @ line_events pf (framed_lines (concat chunks))"
  using readLoop_chunks [OF assms, of pf chunks "[]" "[]"] assms
  by (simp add: feed_all_lines called_def)

text \<open>
  C3, as stated, fails: the line that the \<^verbatim>\<open>log\<close> and \<^verbatim>\<open>reading\<close> events carry is
  not the received line with its trailing carriage return stripped and trimmed. For
  the received text "1", CR, "2 g", LF that line is "1", CR, "2 g"; the loop removes
  the carriage return inside it and dispatches "Received: 12 g" and the reading 12 g.
\<close>

theorem readLoop_removes_inner_carriage_return:
  "spec_lines (js ''1'' @ [CR] @ js ''2 g'' @ [LF]) = [js ''1'' @ [CR] @ js ''2 g'']
   \<and> dispatched (snd (readLoop_iter (\<lambda>l. l)
         [(False, Chunk (js ''1'' @ [CR] @ js ''2 g'' @ [LF]))] [] connected_transport))
       = [Log (js ''Received: 12 g''),
          Reading \<lparr>raw = js ''12 g'', val = Some (js ''12''), unit = js ''g''\<rparr>]
   \<and> dispatched (snd (readLoop_iter (\<lambda>l. l)
         [(False, Chunk (js ''1'' @ [CR] @ js ''2 g'' @ [LF]))] [] connected_transport))
       \<noteq> concat (map (\<lambda>l. [Log (js ''Received: '' @ l), Reading (reading_of (\<lambda>l. l) l)])
             (spec_lines (js ''1'' @ [CR] @ js ''2 g'' @ [LF])))"
proof -
  let ?t = "js ''1'' @ [CR] @ js ''2 g'' @ [LF]"
  have r: "readLoopRunning connected_transport" by (simp add: connected_transport_def)
  have sp: "spec_lines ?t = [js ''1'' @ [CR] @ js ''2 g'']"
    by (simp add: spec_lines_def spec_framed_def strip_trailing_cr_def js_def CR_def LF_def
        isSpace_def)
  have fr: "framed_lines ?t = [js ''12 g'']"
    by (simp add: framed_lines_def framed_def blank_def js_def CR_def LF_def isSpace_def)
  have p: "reading_of (\<lambda>l. l) (js ''12 g'')
      = \<lparr>raw = js ''12 g'', val = Some (js ''12''), unit = js ''g''\<rparr>"
    by (simp add: reading_of_def exec_first_literal js_def literal_at_def unit_token_def
        isDigit_def isSpace_def isUnitChar_def minus_sign_def point_def)
  have j: "js ''Received: '' @ js ''12 g'' = js ''Received: 12 g''" by (simp add: js_def)
  have le: "line_events (\<lambda>l. l) (framed_lines (concat [?t]))
      = [Log (js ''Received: 12 g''),
         Reading \<lparr>raw = js ''12 g'', val = Some (js ''12''), unit = js ''g''\<rparr>]"
    unfolding concat.simps append_Nil2 fr by (simp add: line_events_def p j)
  have k: "dispatched connected_transport = []" by (simp add: connected_transport_def)
  have m: "map (\<lambda>c. (False, Chunk c)) [?t] = [(False, Chunk ?t)]" by simp
  have d: "dispatched (snd (readLoop_iter (\<lambda>l. l) [(False, Chunk ?t)] [] connected_transport))
      = [Log (js ''Received: 12 g''),
         Reading \<lparr>raw = js ''12 g'', val = Some (js ''12''), unit = js ''g''\<rparr>]"
    using readLoop_dispatched [OF r, of "\<lambda>l. l" "[?t]"]
    unfolding le k m by (simp only: append_Nil)
  have n: "Log (js ''Received: 12 g'') \<noteq> (Log (js ''Received: '' @ js ''1'' @ [CR] @ js ''2 g'') :: jstring event)"
    by (simp add: js_def CR_def)
  have "[Log (js ''Received: 12 g''),
         Reading \<lparr>raw = js ''12 g'', val = Some (js ''12''), unit = js ''g''\<rparr>]
      \<noteq> concat (map (\<lambda>l. [Log (js ''Received: '' @ l), Reading (reading_of (\<lambda>l. l) l)])
             (spec_lines ?t))"
    unfolding sp using n by simp
  then have ne: "dispatched (snd (readLoop_iter (\<lambda>l. l) [(False, Chunk ?t)] [] connected_transport))
      \<noteq> concat (map (\<lambda>l. [Log (js ''Received: '' @ l), Reading (reading_of (\<lambda>l. l) l)])
             (spec_lines ?t))"
    unfolding d .
  from sp d ne show ?thesis by blast
qed

text \<open>
  C3, amended. While the loop is meant to run, whatever the split of the received text
  into chunks, the loop dispatches for every complete line that is not blank, in order
  of arrival, one \<^verbatim>\<open>log\<close> event and then one \<^verbatim>\<open>reading\<close> event with the parsed
  reading, a line without a number included (its value is absent). Both carry the line
  with every carriage return removed and the surrounding white space trimmed. The
  loop dispatches nothing else, so blank lines give no event, and it ends suspended in
  the next read, holding the text after the last line feed. When no line has a
  carriage return inside its trimmed text, the lines carried are those of the
  specification: trailing carriage return stripped, trimmed, empty ones discarded.
\<close>

theorem readLoop_one_reading_per_line:
  assumes "readLoopRunning s"
  shows "readLoop_iter pf (map (\<lambda>c. (False, Chunk c)) chunks) [] s =
     (Pending (unfinished [] (concat chunks)),
      s\<lparr>dispatched := dispatched s @
           concat (map (\<lambda>l. [Log (js ''Received: '' @ l), Reading (reading_of pf l)])
             (framed_lines (concat chunks))),
         calls := calls s @ replicate (Suc (length chunks)) ReadChunk\<rparr>)
   \<and> ((\<forall>l\<in>set (lines_of [] (concat chunks)). CR \<notin> set (spec_framed l)) \<longrightarrow>
        framed_lines (concat chunks) = spec_lines (concat chunks))"
proof -
  have f: "fst (feed_all [] chunks) = framed_lines (concat chunks)"
    by (rule feed_all_lines)
  have b: "snd (feed_all [] chunks) = unfinished [] (concat chunks)"
    by (rule feed_all_buffer)
  have "readLoop_iter pf (map (\<lambda>c. (False, Chunk c)) chunks) [] s =
     (Pending (unfinished [] (concat chunks)),
      s\<lparr>dispatched := dispatched s @
           concat (map (\<lambda>l. [Log (js ''Received: '' @ l), Reading (reading_of pf l)])
             (framed_lines (concat chunks))),
         calls := calls s @ replicate (Suc (length chunks)) ReadChunk\<rparr>)"
    using readLoop_chunks [OF assms, of pf chunks "[]" "[]"] assms
    by (simp add: f b line_events_def called_def replicate_append_same)
  then show ?thesis
    using framed_lines_spec_lines [of "concat chunks"] by blast
qed

theorem readLoop_one_reading_per_line_witness:
  "readLoopRunning connected_transport
   \<and> readLoop_iter (\<lambda>l. l)
        [(False, Chunk (js ''  ES '' @ [CR, LF] @ js ''   '' @ [CR])),
         (False, Chunk ([LF, CR, LF] @ js ''1'' @ [CR] @ js ''2 g'' @ [LF] @ js ''re'')),
         (False, Chunk (js ''st''))] [] connected_transport
     = (Pending (js ''rest''),
        connected_transport
        \<lparr>dispatched :=
           [Log (js ''Received: ES''), Reading \<lparr>raw = js ''ES'', val = None, unit = []\<rparr>,
            Log (js ''Received: 12 g''),
            Reading \<lparr>raw = js ''12 g'', val = Some (js ''12''), unit = js ''g''\<rparr>],
         calls := [ReadChunk, ReadChunk, ReadChunk, ReadChunk]\<rparr>)
   \<and> framed_lines (js ''  ES '' @ [CR, LF] @ js ''   '' @ [CR, LF]) = [js ''ES'']
   \<and> spec_lines (js ''  ES '' @ [CR, LF] @ js ''   '' @ [CR, LF]) = [js ''ES'']"
proof -
  let ?chunks = "[js ''  ES '' @ [CR, LF] @ js ''   '' @ [CR],
      [LF, CR, LF] @ js ''1'' @ [CR] @ js ''2 g'' @ [LF] @ js ''re'', js ''st'']"
  let ?quiet = "[js ''  ES '' @ [CR, LF], js ''   '' @ [CR, LF]]"
  have r: "readLoopRunning connected_transport" by (simp add: connected_transport_def)
  have c: "framed_lines (concat ?chunks) = [js ''ES'', js ''12 g'']"
    by (simp add: framed_lines_def framed_def blank_def js_def CR_def LF_def isSpace_def)
  have l: "unfinished [] (concat ?chunks) = js ''rest''"
    by (simp add: js_def CR_def LF_def)
  have p1: "reading_of (\<lambda>l. l) (js ''ES'') = \<lparr>raw = js ''ES'', val = None, unit = []\<rparr>"
    by (simp add: reading_of_def exec_first_literal js_def literal_at_def unit_token_def isDigit_def isSpace_def
        isUnitChar_def minus_sign_def point_def)
  have p2: "reading_of (\<lambda>l. l) (js ''12 g'') = \<lparr>raw = js ''12 g'', val = Some (js ''12''), unit = js ''g''\<rparr>"
    by (simp add: reading_of_def exec_first_literal js_def literal_at_def unit_token_def isDigit_def isSpace_def
        isUnitChar_def minus_sign_def point_def)
  have j: "js ''Received: '' @ js ''ES'' = js ''Received: ES''"
     "js ''Received: '' @ js ''12 g'' = js ''Received: 12 g''"
    by (simp_all add: js_def)
  have k: "dispatched connected_transport = []" "calls connected_transport = []"
    by (simp_all add: connected_transport_def)
  note t = readLoop_one_reading_per_line [OF r, of "\<lambda>l. l" ?chunks]
  note u = readLoop_one_reading_per_line [OF r, of "\<lambda>l. l" ?quiet]
  from t [THEN conjunct1]
  have a: "readLoop_iter (\<lambda>l. l)
        [(False, Chunk (js ''  ES '' @ [CR, LF] @ js ''   '' @ [CR])),
         (False, Chunk ([LF, CR, LF] @ js ''1'' @ [CR] @ js ''2 g'' @ [LF] @ js ''re'')),
         (False, Chunk (js ''st''))] [] connected_transport
     = (Pending (js ''rest''),
        connected_transport
        \<lparr>dispatched :=
           [Log (js ''Received: ES''), Reading \<lparr>raw = js ''ES'', val = None, unit = []\<rparr>,
            Log (js ''Received: 12 g''),
            Reading \<lparr>raw = js ''12 g'', val = Some (js ''12''), unit = js ''g''\<rparr>],
         calls := [ReadChunk, ReadChunk, ReadChunk, ReadChunk]\<rparr>)"
    unfolding c l k by (simp add: p1 p2 j)
  have h: "\<forall>l\<in>set (lines_of [] (concat ?quiet)). CR \<notin> set (spec_framed l)"
    by (simp add: spec_framed_def strip_trailing_cr_def js_def CR_def LF_def isSpace_def)
  have q: "framed_lines (concat ?quiet) = [js ''ES'']"
    by (simp add: framed_lines_def framed_def blank_def js_def CR_def LF_def isSpace_def)
  from u [THEN conjunct2] h have "framed_lines (concat ?quiet) = spec_lines (concat ?quiet)"
    by blast
  with q have sq: "spec_lines (concat ?quiet) = [js ''ES'']" by simp
  have cq: "concat ?quiet = js ''  ES '' @ [CR, LF] @ js ''   '' @ [CR, LF]" by simp
  from r a q sq show ?thesis unfolding cq by blast
qed

text \<open>
  C8. A read that fails after any number of chunks ends the loop. When
  \<^verbatim>\<open>disconnect\<close> cleared the running flag while that read was pending, the loop
  dispatches no \<^verbatim>\<open>error\<close> event; otherwise it dispatches exactly one, with the
  message of the failure. In both cases the loop leaves through \<^verbatim>\<open>finally\<close>:
  \<^verbatim>\<open>releaseLock\<close> is called on the reader and the field is cleared.
\<close>

theorem readLoop_read_error:
  assumes "readLoopRunning s"
  shows "readLoop_iter pf (map (\<lambda>c. (False, Chunk c)) chunks @ (stopped, ReadFails msg) # rest) [] s =
     (Exited,
      s\<lparr>dispatched := dispatched s @
           concat (map (\<lambda>l. [Log (js ''Received: '' @ l), Reading (reading_of pf l)])
             (framed_lines (concat chunks)))
           @ (if stopped then [] else [Error (js ''Read error: '' @ msg)]),
         calls := calls s @ replicate (Suc (length chunks)) ReadChunk
           @ (if reader s then [ReleaseReader] else []),
         readLoopRunning := \<not> stopped,
         reader := False\<rparr>)"
proof -
  have f: "fst (feed_all [] chunks) = framed_lines (concat chunks)"
    by (rule feed_all_lines)
  show ?thesis
    using readLoop_chunks [OF assms, of pf chunks "(stopped, ReadFails msg) # rest" "[]"] assms
    by (simp add: f line_events_def called_def replicate_append_same
        readLoop_finally_def readLoop_catch_def emit_def)
qed

theorem readLoop_read_error_witness:
  "readLoopRunning connected_transport
   \<and> readLoop_iter (\<lambda>l. l) [(True, ReadFails (js ''lost''))] [] connected_transport
      = (Exited, connected_transport\<lparr>calls := [ReadChunk, ReleaseReader],
           readLoopRunning := False, reader := False\<rparr>)
   \<and> readLoop_iter (\<lambda>l. l) [(False, ReadFails (js ''lost''))] [] connected_transport
      = (Exited, connected_transport\<lparr>dispatched := [Error (js ''Read error: lost'')],
           calls := [ReadChunk, ReleaseReader], reader := False\<rparr>)"
proof -
  have r: "readLoopRunning connected_transport" by (simp add: connected_transport_def)
  have c: "framed_lines (concat []) = []" by (simp add: framed_lines_def)
  have j: "js ''Read error: '' @ js ''lost'' = js ''Read error: lost''" by (simp add: js_def)
  from readLoop_read_error [OF r, of "\<lambda>l. l" "[]" True "js ''lost''" "[]"]
  have a: "readLoop_iter (\<lambda>l. l) [(True, ReadFails (js ''lost''))] [] connected_transport
      = (Exited, connected_transport\<lparr>calls := [ReadChunk, ReleaseReader],
           readLoopRunning := False, reader := False\<rparr>)"
    unfolding c by (simp add: connected_transport_def)
  from readLoop_read_error [OF r, of "\<lambda>l. l" "[]" False "js ''lost''" "[]"]
  have b: "readLoop_iter (\<lambda>l. l) [(False, ReadFails (js ''lost''))] [] connected_transport
      = (Exited, connected_transport\<lparr>dispatched := [Error (js ''Read error: lost'')],
           calls := [ReadChunk, ReleaseReader], reader := False\<rparr>)"
    unfolding c j by (simp add: connected_transport_def j)
  from r a b show ?thesis by blast
qed

section \<open>Properties of connect\<close>

text \<open>
  The message with which \<^verbatim>\<open>connect\<close> fails: that of the first of the port request, the
  opening of the port and the acquisition of the writer that throws.
\<close>

definition connect_failure :: "connect_env \<Rightarrow> jstring option" where
  "connect_failure env =
     (case requestPort_outcome env of
        Throws msg \<Rightarrow> Some msg
      | Returns \<Rightarrow>
          (case open_outcome env of
             Throws msg \<Rightarrow> Some msg
           | Returns \<Rightarrow>
               (case getWriter_outcome env of Throws msg \<Rightarrow> Some msg | Returns \<Rightarrow> None)))"

text \<open>
  C4, as stated, fails: when the port was opened and \<^verbatim>\<open>getWriter\<close> throws,
  \<^verbatim>\<open>connect\<close> fails with the port still open and still referenced; the only calls it
  made are the request, the opening and the failed acquisition.
\<close>

theorem connect_failure_leaves_port_open:
  "fst (connect writer_locked (new_transport :: jstring transport)) = Inl (js ''locked'')
   \<and> open_ports (snd (connect writer_locked (new_transport :: jstring transport))) = {0}
   \<and> port (snd (connect writer_locked (new_transport :: jstring transport))) = Some 0
   \<and> calls (snd (connect writer_locked (new_transport :: jstring transport)))
       = [RequestPort, OpenPort, GetWriter]"
  by (simp add: connect_def writer_locked_def connect_catch_def new_transport_def called_def emit_def)

text \<open>
  C4, amended. When \<^verbatim>\<open>connect\<close> fails at any step, it dispatches exactly one
  \<^verbatim>\<open>error\<close> event, "Connect failed: " with the message of the cause, and fails with
  that cause. It releases nothing itself: it makes no call beyond the steps it
  attempted; once the request returned, \<^verbatim>\<open>#port\<close> refers to the requested port, and
  that port is open once its opening returned; every port that was open before is
  still open; writer, reader and running flag are as before. A later \<^verbatim>\<open>disconnect\<close>
  whose \<^verbatim>\<open>close\<close> returns closes the port that \<^verbatim>\<open>#port\<close> was left referring to, and
  no other.
\<close>

theorem connect_failure_reported_not_released:
  assumes "connect_failure env = Some msg"
  shows "fst (connect env s) = Inl msg
   \<and> dispatched (snd (connect env s)) = dispatched s @ [Error (js ''Connect failed: '' @ msg)]
   \<and> calls (snd (connect env s)) = calls s @ RequestPort #
        (if requestPort_outcome env = Returns
         then OpenPort # (if open_outcome env = Returns then [GetWriter] else []) else [])
   \<and> port (snd (connect env s)) =
        (if requestPort_outcome env = Returns then Some (requested_port env) else port s)
   \<and> open_ports (snd (connect env s)) =
        (if requestPort_outcome env = Returns \<and> open_outcome env = Returns
         then insert (requested_port env) (open_ports s) else open_ports s)
   \<and> writer (snd (connect env s)) = writer s
   \<and> reader (snd (connect env s)) = reader s
   \<and> readLoopRunning (snd (connect env s)) = readLoopRunning s
   \<and> (close_outcome denv = Returns \<and> port (snd (connect env s)) = Some h \<longrightarrow>
        port (disconnect denv (snd (connect env s))) = None
        \<and> open_ports (disconnect denv (snd (connect env s)))
            = open_ports (snd (connect env s)) - {h})"
proof -
  have d: "close_outcome denv = Returns \<and> port t = Some h \<longrightarrow>
      port (disconnect denv t) = None \<and> open_ports (disconnect denv t) = open_ports t - {h}"
    for t :: "'a transport"
    by (simp add: disconnect_def disconnect_begin_def disconnect_resume_def close_port_def
        release_writer_def release_reader_def readLoop_finally_def emit_def called_def Let_def
        split: outcome.splits)
  have c: "fst (connect env s) = Inl msg
   \<and> dispatched (snd (connect env s)) = dispatched s @ [Error (js ''Connect failed: '' @ msg)]
   \<and> calls (snd (connect env s)) = calls s @ RequestPort #
        (if requestPort_outcome env = Returns
         then OpenPort # (if open_outcome env = Returns then [GetWriter] else []) else [])
   \<and> port (snd (connect env s)) =
        (if requestPort_outcome env = Returns then Some (requested_port env) else port s)
   \<and> open_ports (snd (connect env s)) =
        (if requestPort_outcome env = Returns \<and> open_outcome env = Returns
         then insert (requested_port env) (open_ports s) else open_ports s)
   \<and> writer (snd (connect env s)) = writer s
   \<and> reader (snd (connect env s)) = reader s
   \<and> readLoopRunning (snd (connect env s)) = readLoopRunning s"
    using assms
    by (simp add: connect_failure_def connect_def connect_catch_def emit_def called_def Let_def
        split: outcome.splits)
  from c d [of "snd (connect env s)"] show ?thesis by blast
qed

theorem connect_failure_reported_not_released_witness:
  "connect_failure writer_locked = Some (js ''locked'')
   \<and> dispatched (snd (connect writer_locked (new_transport :: jstring transport)))
       = [Error (js ''Connect failed: locked'')]
   \<and> \<not> writer (snd (connect writer_locked (new_transport :: jstring transport)))
   \<and> close_outcome all_release = Returns
   \<and> port (snd (connect writer_locked (new_transport :: jstring transport))) = Some 0
   \<and> open_ports (snd (connect writer_locked (new_transport :: jstring transport))) = {0}
   \<and> open_ports (disconnect all_release
        (snd (connect writer_locked (new_transport :: jstring transport)))) = {}
   \<and> connect_failure open_refused = Some (js ''busy'')
   \<and> port (snd (connect open_refused connected_transport)) = Some 1
   \<and> open_ports (snd (connect open_refused connected_transport)) = {0}
   \<and> port (disconnect all_release (snd (connect open_refused connected_transport))) = None
   \<and> open_ports (disconnect all_release (snd (connect open_refused connected_transport))) = {0}"
proof -
  let ?n = "new_transport :: jstring transport"
  have f: "connect_failure writer_locked = Some (js ''locked'')"
    by (simp add: connect_failure_def writer_locked_def)
  have g: "connect_failure open_refused = Some (js ''busy'')"
    by (simp add: connect_failure_def open_refused_def)
  have r: "close_outcome all_release = Returns" by (simp add: all_release_def)
  have j: "js ''Connect failed: '' @ js ''locked'' = js ''Connect failed: locked''"
    by (simp add: js_def)
  note t = connect_failure_reported_not_released [OF f, of ?n all_release 0]
  note u = connect_failure_reported_not_released [OF g, of connected_transport all_release 1]
  from t have p: "port (snd (connect writer_locked ?n)) = Some 0"
    by (simp add: writer_locked_def)
  from t have o: "open_ports (snd (connect writer_locked ?n)) = {0}"
    by (simp add: writer_locked_def new_transport_def)
  from t have w: "\<not> writer (snd (connect writer_locked ?n))"
    by (simp add: new_transport_def)
  from t have e: "dispatched (snd (connect writer_locked ?n)) = [Error (js ''Connect failed: locked'')]"
    by (simp add: new_transport_def j)
  from t r p have "open_ports (disconnect all_release (snd (connect writer_locked ?n)))
      = open_ports (snd (connect writer_locked ?n)) - {0}"
    by blast
  then have c: "open_ports (disconnect all_release (snd (connect writer_locked ?n))) = {}"
    unfolding o by simp
  from u have p1: "port (snd (connect open_refused connected_transport)) = Some 1"
    by (simp add: open_refused_def)
  from u have o1: "open_ports (snd (connect open_refused connected_transport)) = {0}"
    by (simp add: open_refused_def connected_transport_def)
  from u r p1 have q: "port (disconnect all_release (snd (connect open_refused connected_transport))) = None"
    by blast
  from u r p1 have "open_ports (disconnect all_release (snd (connect open_refused connected_transport)))
      = open_ports (snd (connect open_refused connected_transport)) - {1}"
    by blast
  then have c1: "open_ports (disconnect all_release (snd (connect open_refused connected_transport))) = {0}"
    unfolding o1 by simp
  from f e w r p o c g p1 o1 q c1 show ?thesis by blast
qed

section \<open>Properties of disconnect\<close>

text \<open>A transport that holds no reader, no writer and no port.\<close>

definition released :: "'n transport \<Rightarrow> bool" where
  "released s = (\<not> reader s \<and> \<not> writer s \<and> port s = None)"

text \<open>
  C5, as stated, fails: \<^verbatim>\<open>disconnect\<close> on a transport that was never connected is not
  a no-op, it dispatches \<^verbatim>\<open>disconnected\<close> and the log event "Serial port closed".
\<close>

theorem disconnect_disconnected_emits:
  "disconnect all_release (new_transport :: jstring transport) \<noteq> new_transport
   \<and> dispatched (disconnect all_release (new_transport :: jstring transport))
       = [Disconnected, Log (js ''Serial port closed'')]"
proof -
  have "dispatched (disconnect all_release (new_transport :: jstring transport))
       = [Disconnected, Log (js ''Serial port closed'')]"
    by (simp add: disconnect_def disconnect_begin_def disconnect_resume_def close_port_def
        release_writer_def release_reader_def emit_def new_transport_def Let_def)
  moreover have "dispatched (new_transport :: jstring transport) = []"
    by (simp add: new_transport_def)
  ultimately show ?thesis by auto
qed

lemma disconnect_released:
  "released s \<Longrightarrow>
     disconnect env s = s\<lparr>readLoopRunning := False,
       dispatched := dispatched s @ [Disconnected, Log (js ''Serial port closed'')]\<rparr>"
  by (simp add: released_def disconnect_def disconnect_begin_def disconnect_resume_def
      close_port_def release_writer_def release_reader_def emit_def Let_def)

text \<open>
  C5, amended. On a transport that holds no reader, writer or port, \<^verbatim>\<open>disconnect\<close>
  makes no call on the platform, dispatches no \<^verbatim>\<open>error\<close> event and leaves every
  field as it is (the running flag cleared); it still dispatches \<^verbatim>\<open>disconnected\<close> and
  the log event. Whenever a \<^verbatim>\<open>disconnect\<close> has released everything, a repeated
  \<^verbatim>\<open>disconnect\<close> leaves the transport in that same state, apart from these two events.
\<close>

theorem disconnect_idempotent:
  "(released s \<longrightarrow>
      disconnect env s = s\<lparr>readLoopRunning := False,
        dispatched := dispatched s @ [Disconnected, Log (js ''Serial port closed'')]\<rparr>)
   \<and> (released (disconnect env s) \<longrightarrow>
      disconnect env' (disconnect env s) = (disconnect env s)
        \<lparr>dispatched := dispatched (disconnect env s) @ [Disconnected, Log (js ''Serial port closed'')]\<rparr>)"
proof -
  have f: "readLoopRunning (disconnect env s) = False"
    by (simp add: disconnect_def disconnect_begin_def disconnect_resume_def close_port_def
        release_writer_def release_reader_def readLoop_finally_def emit_def called_def Let_def
        split: outcome.splits option.splits)
  have "released (disconnect env s) \<Longrightarrow>
      disconnect env' (disconnect env s) = (disconnect env s)
        \<lparr>dispatched := dispatched (disconnect env s) @ [Disconnected, Log (js ''Serial port closed'')]\<rparr>"
    using f by (simp add: disconnect_released)
  then show ?thesis using disconnect_released [of s env] by blast
qed

theorem disconnect_idempotent_witness:
  "released (new_transport :: jstring transport)
   \<and> disconnect all_release (new_transport :: jstring transport)
      = new_transport\<lparr>dispatched := [Disconnected, Log (js ''Serial port closed'')]\<rparr>
   \<and> released (disconnect all_release connected_transport)
   \<and> open_ports (disconnect all_release (disconnect all_release connected_transport)) = {}
   \<and> dispatched (disconnect all_release (disconnect all_release connected_transport))
      = [Disconnected, Log (js ''Serial port closed''), Disconnected, Log (js ''Serial port closed'')]"
proof -
  have r0: "released (new_transport :: jstring transport)"
    by (simp add: released_def new_transport_def)
  have d1: "disconnect all_release connected_transport =
      \<lparr>port = None, writer = False, reader = False, readLoopRunning = False,
       open_ports = {}, dispatched = [Disconnected, Log (js ''Serial port closed'')],
       calls = [CancelReader, ReleaseReader, ReleaseWriter, ClosePort]\<rparr>"
    by (simp add: disconnect_def disconnect_begin_def disconnect_resume_def close_port_def
        release_writer_def release_reader_def readLoop_finally_def emit_def called_def Let_def
        all_release_def connected_transport_def)
  have r1: "released (disconnect all_release connected_transport)"
    by (simp add: d1 released_def)
  note t0 = disconnect_idempotent [of "new_transport :: jstring transport" all_release all_release]
  note t1 = disconnect_idempotent [of connected_transport all_release all_release]
  from t0 r0 have a: "disconnect all_release (new_transport :: jstring transport)
      = new_transport\<lparr>dispatched := [Disconnected, Log (js ''Serial port closed'')]\<rparr>"
    by (simp add: new_transport_def)
  from t1 r1 have "disconnect all_release (disconnect all_release connected_transport)
      = (disconnect all_release connected_transport)
        \<lparr>dispatched := dispatched (disconnect all_release connected_transport) @ [Disconnected, Log (js ''Serial port closed'')]\<rparr>"
    by blast
  then have b: "open_ports (disconnect all_release (disconnect all_release connected_transport)) = {}"
    and c: "dispatched (disconnect all_release (disconnect all_release connected_transport))
      = [Disconnected, Log (js ''Serial port closed''), Disconnected, Log (js ''Serial port closed'')]"
    by (simp_all add: d1)
  from r0 a r1 b c show ?thesis by blast
qed

text \<open>
  C6. The teardown is best effort. Whatever the outcome of each step, \<^verbatim>\<open>disconnect\<close>
  cancels the reader when one is held (its lock is then released by the loop leaving or,
  when \<^verbatim>\<open>cancel\<close> returned, by \<^verbatim>\<open>disconnect\<close> itself), then releases the writer when
  one is held, then closes the port when one is held: no failure of an earlier step
  skips a later one. The only \<^verbatim>\<open>error\<close> event is that of a failing \<^verbatim>\<open>close\<close>, and
  \<^verbatim>\<open>disconnected\<close> followed by the log event is dispatched last in every case.
\<close>

theorem disconnect_best_effort:
  "calls (disconnect env s) = calls s
      @ (if reader s then
           CancelReader #
             (if loop_exits_during_cancel env \<or> cancel_outcome env = Returns then [ReleaseReader] else [])
         else [])
      @ (if writer s then [ReleaseWriter] else [])
      @ (if port s \<noteq> None then [ClosePort] else [])
   \<and> dispatched (disconnect env s) = dispatched s
      @ (if port s \<noteq> None then (case close_outcome env of Throws msg \<Rightarrow> [Error (js ''Close error: '' @ msg)] | Returns \<Rightarrow> []) else [])
      @ [Disconnected, Log (js ''Serial port closed'')]"
  by (simp add: disconnect_def disconnect_begin_def disconnect_resume_def close_port_def
        release_writer_def release_reader_def readLoop_finally_def emit_def called_def Let_def
        split: outcome.splits option.splits)

section \<open>Properties of send\<close>

lemma trim_token:
  assumes "cmd = [] \<or> (\<not> isSpace (hd cmd) \<and> \<not> isSpace (last cmd))"
  shows "trim cmd = cmd"
proof (cases cmd)
  case Nil
  then show ?thesis by (simp add: trim_def)
next
  case (Cons c cs)
  with assms have h: "\<not> isSpace c" and l: "\<not> isSpace (last cmd)" by auto
  from h Cons have 1: "dropWhile isSpace cmd = cmd" by simp
  from Cons have e: "rev cmd = last cmd # rev (butlast cmd)"
    by (metis append_butlast_last_id list.distinct(1) rev.simps(2) rev_rev_ident rev_swap)
  have "dropWhile isSpace (last cmd # rev (butlast cmd)) = last cmd # rev (butlast cmd)"
    using l by simp
  then have "dropWhile isSpace (rev cmd) = rev cmd"
    unfolding e [symmetric] .
  with 1 show ?thesis by (simp add: trim_def)
qed

text \<open>
  C7. Without a writer, \<^verbatim>\<open>send\<close> returns normally, dispatches the \<^verbatim>\<open>error\<close> event
  "Not connected" and makes no call. With a writer it makes one \<^verbatim>\<open>write\<close> call, of the
  encoding of the trimmed command followed by CR LF; for a command token, which has
  no white space at either end, that is the token itself followed by CR LF.
\<close>

theorem send_appends_crlf:
  "(\<not> writer s \<longrightarrow>
      send w cmd s = (Inr (), s\<lparr>dispatched := dispatched s @ [Error (js ''Not connected'')]\<rparr>))
   \<and> (writer s \<longrightarrow>
      calls (snd (send w cmd s)) = calls s @ [WriteEncoded (trim cmd @ [CR, LF])])
   \<and> (writer s \<and> (cmd = [] \<or> (\<not> isSpace (hd cmd) \<and> \<not> isSpace (last cmd))) \<longrightarrow>
      calls (snd (send w cmd s)) = calls s @ [WriteEncoded (cmd @ [CR, LF])])"
proof -
  have a: "writer s \<Longrightarrow> calls (snd (send w cmd s)) = calls s @ [WriteEncoded (trim cmd @ [CR, LF])]"
    by (simp add: send_def called_def emit_def Let_def split: outcome.splits)
  have b: "\<not> writer s \<Longrightarrow>
      send w cmd s = (Inr (), s\<lparr>dispatched := dispatched s @ [Error (js ''Not connected'')]\<rparr>)"
    by (simp add: send_def emit_def)
  show ?thesis using a b trim_token [of cmd] by metis
qed

theorem send_appends_crlf_witness:
  "\<not> writer (new_transport :: jstring transport)
   \<and> send Returns (js ''SI'') (new_transport :: jstring transport)
       = (Inr (), new_transport\<lparr>dispatched := [Error (js ''Not connected'')]\<rparr>)
   \<and> writer connected_transport
   \<and> \<not> isSpace (hd (js ''SI'')) \<and> \<not> isSpace (last (js ''SI''))
   \<and> calls (snd (send Returns (js ''SI'') connected_transport)) = [WriteEncoded (js ''SI'' @ [CR, LF])]
   \<and> calls (snd (send Returns (js '' SI '') connected_transport)) = [WriteEncoded (js ''SI'' @ [CR, LF])]"
proof -
  have n: "\<not> writer (new_transport :: jstring transport)" by (simp add: new_transport_def)
  have c: "writer connected_transport" by (simp add: connected_transport_def)
  have t: "\<not> isSpace (hd (js ''SI''))" "\<not> isSpace (last (js ''SI''))"
    by (simp_all add: js_def isSpace_def)
  have tr: "trim (js '' SI '') = js ''SI''" by (simp add: trim_def js_def isSpace_def)
  from send_appends_crlf [of "new_transport :: jstring transport" Returns "js ''SI''"] n
  have 1: "send Returns (js ''SI'') (new_transport :: jstring transport)
       = (Inr (), new_transport\<lparr>dispatched := [Error (js ''Not connected'')]\<rparr>)"
    by (simp add: new_transport_def)
  have k: "calls connected_transport = []" by (simp add: connected_transport_def)
  from send_appends_crlf [of connected_transport Returns "js ''SI''"] c t
  have "calls (snd (send Returns (js ''SI'') connected_transport))
      = calls connected_transport @ [WriteEncoded (js ''SI'' @ [CR, LF])]"
    by blast
  then have 2: "calls (snd (send Returns (js ''SI'') connected_transport)) = [WriteEncoded (js ''SI'' @ [CR, LF])]"
    unfolding k by simp
  from send_appends_crlf [of connected_transport Returns "js '' SI ''"] c
  have "calls (snd (send Returns (js '' SI '') connected_transport))
      = calls connected_transport @ [WriteEncoded (trim (js '' SI '') @ [CR, LF])]"
    by blast
  then have 3: "calls (snd (send Returns (js '' SI '') connected_transport)) = [WriteEncoded (js ''SI'' @ [CR, LF])]"
    unfolding k tr by simp
  from n 1 c t 2 3 show ?thesis by blast
qed

section \<open>The recorder\<close>

text \<open>
  recorder.js, class \<^verbatim>\<open>Recorder\<close>: the recorded entries, oldest first, and the
  recording flag. The timestamp of an entry is the text of
  \<^verbatim>\<open>new Date().toISOString()\<close> at the call, an argument here.
\<close>

record 'n entry =
  timestamp :: jstring
  entry_value :: 'n
  entry_unit :: jstring

record 'n recorder =
  data :: "'n entry list"
  recording :: bool

definition new_recorder :: "'n recorder" where
  "new_recorder = \<lparr>data = [], recording = False\<rparr>"

definition isRecording :: "'n recorder \<Rightarrow> bool" where
  "isRecording r = recording r"

definition count :: "'n recorder \<Rightarrow> nat" where
  "count r = length (data r)"

definition start :: "'n recorder \<Rightarrow> 'n recorder" where
  "start r = r\<lparr>data := [], recording := True\<rparr>"

definition stop :: "'n recorder \<Rightarrow> 'n recorder" where
  "stop r = r\<lparr>recording := False\<rparr>"

definition Recorder_addReading :: "jstring \<Rightarrow> 'n \<Rightarrow> jstring \<Rightarrow> 'n recorder \<Rightarrow> 'n recorder" where
  "Recorder_addReading now v u r =
     (if \<not> recording r then r
      else r\<lparr>data := data r @ [\<lparr>timestamp = now, entry_value = v, entry_unit = u\<rparr>]\<rparr>)"

text \<open>
  \<^verbatim>\<open>
  download() {
    if (this.#data.length === 0) return false;
    const header = 'Timestamp,Value,Unit\n';
    const rows = this.#data.map(r => `${r.timestamp},${r.value},${r.unit}`).join('\n');
    const csv = header + rows + '\n';
    ... a Blob of csv, offered under the name
    const ts = new Date().toISOString().replace(/[:\-]/g, '').replace(/\..+/, '');
    a.download = `scale_recording_${ts}.csv`;
    ...
    return true;
  }
  \<close>
  The text of a number in a template literal is the parameter \<open>numberToString\<close>.
  The result is the returned boolean and the file offered for download, if any.
\<close>

definition csv_row :: "('n \<Rightarrow> jstring) \<Rightarrow> 'n entry \<Rightarrow> jstring" where
  "csv_row numberToString r =
     timestamp r @ js '','' @ numberToString (entry_value r) @ js '','' @ entry_unit r"

definition csv :: "('n \<Rightarrow> jstring) \<Rightarrow> 'n entry list \<Rightarrow> jstring" where
  "csv numberToString rows =
     js ''Timestamp,Value,Unit'' @ [LF] @ join_lf (map (csv_row numberToString) rows) @ [LF]"

text \<open>\<^verbatim>\<open>.\<close> in a regular expression: any code unit but a line terminator.\<close>

definition isLineTerminator :: "code_unit \<Rightarrow> bool" where
  "isLineTerminator c = (c = 10 \<or> c = 13 \<or> c = 0x2028 \<or> c = 0x2029)"

text \<open>
  \<^verbatim>\<open>.replace(/\..+/, '')\<close>: at the first point that some character other than a line
  terminator follows, remove the point and the run of such characters after it.
\<close>

fun cut_fraction :: "jstring \<Rightarrow> jstring" where
  "cut_fraction [] = []"
| "cut_fraction (c # cs) =
     (if c = point \<and> cs \<noteq> [] \<and> \<not> isLineTerminator (hd cs)
      then dropWhile (\<lambda>x. \<not> isLineTerminator x) cs
      else c # cut_fraction cs)"

definition file_stamp :: "jstring \<Rightarrow> jstring" where
  "file_stamp now = cut_fraction (filter (\<lambda>c. c \<noteq> 58 \<and> c \<noteq> minus_sign) now)"

record csv_file =
  file_name :: jstring
  file_content :: jstring

definition download :: "('n \<Rightarrow> jstring) \<Rightarrow> jstring \<Rightarrow> 'n recorder \<Rightarrow> bool \<times> csv_file option" where
  "download numberToString now r =
     (if length (data r) = 0 then (False, None)
      else (True, Some \<lparr>file_name = js ''scale_recording_'' @ file_stamp now @ js ''.csv'',
                         file_content = csv numberToString (data r)\<rparr>))"

text \<open>The calls the application makes on a recorder, run in order.\<close>

datatype 'n recorder_call = Start | Stop | AddReading jstring 'n jstring

fun recorder_step :: "'n recorder \<Rightarrow> 'n recorder_call \<Rightarrow> 'n recorder" where
  "recorder_step r Start = start r"
| "recorder_step r Stop = stop r"
| "recorder_step r (AddReading now v u) = Recorder_addReading now v u r"

definition recorder_run :: "'n recorder_call list \<Rightarrow> 'n recorder \<Rightarrow> 'n recorder" where
  "recorder_run cs r = foldl recorder_step r cs"

text \<open>The entries of the \<^verbatim>\<open>addReading\<close> calls among a list of calls.\<close>

fun added :: "'n recorder_call list \<Rightarrow> 'n entry list" where
  "added [] = []"
| "added (AddReading now v u # cs) = \<lparr>timestamp = now, entry_value = v, entry_unit = u\<rparr> # added cs"
| "added (c # cs) = added cs"

section \<open>The chart\<close>

text \<open>
  chart-manager.js, class \<^verbatim>\<open>ChartManager\<close>: the data points (time in milliseconds,
  value), oldest first, and the time window in seconds.
  \<^verbatim>\<open>
  addReading(value) {
    if (typeof value !== 'number' || isNaN(value)) return;
    const now = new Date();
    this.#data.push({ x: now, y: value });
    this.#prune(now);
    ...
  }
  #prune(now) {
    const cutoff = now.getTime() - this.#timeWindow * 1000;
    while (this.#data.length > 0 && this.#data[0].x.getTime() < cutoff) {
      this.#data.shift();
    }
  }
  \<close>
  A value of type \<open>'n\<close> is a number; \<^verbatim>\<open>isNaN\<close> is a parameter.
\<close>

record 'n chart =
  chart_data :: "(int \<times> 'n) list"
  timeWindow :: int

definition new_chart :: "'n chart" where
  "new_chart = \<lparr>chart_data = [], timeWindow = 300\<rparr>"

definition prune :: "int \<Rightarrow> 'n chart \<Rightarrow> 'n chart" where
  "prune now c =
     c\<lparr>chart_data := dropWhile (\<lambda>p. fst p < now - timeWindow c * 1000) (chart_data c)\<rparr>"

definition ChartManager_addReading :: "('n \<Rightarrow> bool) \<Rightarrow> int \<Rightarrow> 'n \<Rightarrow> 'n chart \<Rightarrow> 'n chart" where
  "ChartManager_addReading isNaN now v c =
     (if isNaN v then c else prune now (c\<lparr>chart_data := chart_data c @ [(now, v)]\<rparr>))"

section \<open>The reading handler of the application\<close>

text \<open>
  main.js, \<^verbatim>\<open>wireConnection\<close>:
  \<^verbatim>\<open>
  conn.addEventListener('reading', (e) => {
    const { value, unit, raw } = e.detail;
    lastReadingTime = Date.now();
    updateReadout(value, unit);
    if (value !== null) {
      if (chart) chart.addReading(value);
      stats.addValue(value);
      updateStats(stats.getStats());
      recorder.addReading(value, unit);
    }
  });
  \<close>
  and ui.js, \<^verbatim>\<open>updateReadout\<close>, which writes the three texts of the readout: "---"
  for \<^verbatim>\<open>null\<close> or the formatted number (the parameter \<open>formatNumber\<close>), the unit,
  and the time of day. The statistics tracker of stats.js is not among the sources:
  its state is of a type \<open>'s\<close> left open and its \<^verbatim>\<open>addValue\<close> is a parameter; the
  statistics panel shows the state it was last given. \<open>chart\<close> is \<open>None\<close> when the
  chart could not be created. The four readings of the clock are arguments.
\<close>

record readout =
  readoutValue :: jstring
  readoutUnit :: jstring
  readoutTime :: jstring

definition updateReadout :: "('n \<Rightarrow> jstring) \<Rightarrow> jstring \<Rightarrow> 'n option \<Rightarrow> jstring \<Rightarrow> readout" where
  "updateReadout formatNumber time_now v u =
     \<lparr>readoutValue = (case v of None \<Rightarrow> js ''---'' | Some n \<Rightarrow> formatNumber n),
      readoutUnit = u,
      readoutTime = time_now\<rparr>"

record ('n, 's) app =
  lastReadingTime :: int
  shown :: readout
  chart :: "'n chart option"
  stats :: 's
  statsPanel :: 's
  recorder :: "'n recorder"

record clock =
  date_now :: int
  time_text :: jstring
  chart_now :: int
  iso_text :: jstring

definition onReading ::
  "('n \<Rightarrow> jstring) \<Rightarrow> ('n \<Rightarrow> bool) \<Rightarrow> ('n \<Rightarrow> 's \<Rightarrow> 's) \<Rightarrow> clock \<Rightarrow> 'n reading
     \<Rightarrow> ('n, 's) app \<Rightarrow> ('n, 's) app" where
  "onReading formatNumber isNaN addValue clk r a =
     (let a1 = a\<lparr>lastReadingTime := date_now clk,
                 shown := updateReadout formatNumber (time_text clk) (val r) (unit r)\<rparr>
      in case val r of
           None \<Rightarrow> a1
         | Some v \<Rightarrow>
             a1\<lparr>chart := map_option (ChartManager_addReading isNaN (chart_now clk) v) (chart a1),
                stats := addValue v (stats a1),
                statsPanel := addValue v (stats a1),
                recorder := Recorder_addReading (iso_text clk) v (unit r) (recorder a1)\<rparr>)"

text \<open>The application as loaded, with a chart, and a reading of 5 g at some time.\<close>

definition app0 :: "(int, int list) app" where
  "app0 = \<lparr>lastReadingTime = 0,
     shown = \<lparr>readoutValue = [], readoutUnit = [], readoutTime = []\<rparr>,
     chart = Some new_chart, stats = [], statsPanel = [], recorder = new_recorder\<rparr>"

definition clock0 :: clock where
  "clock0 = \<lparr>date_now = 1000, time_text = js ''12:00:01'', chart_now = 1000,
     iso_text = js ''2024-01-02T12:00:01.000Z''\<rparr>"

definition five_grams :: "int reading" where
  "five_grams = \<lparr>raw = js ''5 g'', val = Some 5, unit = js ''g''\<rparr>"

definition status_line :: "int reading" where
  "status_line = \<lparr>raw = js ''ES'', val = None, unit = []\<rparr>"

section \<open>Properties of the recorder\<close>

lemma run_stopped:
  "\<not> recording r \<Longrightarrow> Start \<notin> set cs \<Longrightarrow> recorder_run cs r = r"
  unfolding recorder_run_def
proof (induction cs arbitrary: r)
  case Nil
  show ?case by simp
next
  case (Cons c cs)
  then show ?case
    by (cases c) (simp_all add: stop_def Recorder_addReading_def)
qed

lemma run_recording:
  "recording r \<Longrightarrow> Start \<notin> set cs \<Longrightarrow>
     data (recorder_run cs r) = data r @ added (takeWhile (\<lambda>c. c \<noteq> Stop) cs)"
proof (induction cs arbitrary: r)
  case Nil
  show ?case by (simp add: recorder_run_def)
next
  case (Cons c cs)
  show ?case
  proof (cases c)
    case Start
    with Cons.prems show ?thesis by simp
  next
    case Stop
    have "recorder_run (c # cs) r = recorder_run cs (stop r)"
      by (simp add: recorder_run_def Stop)
    also have "\<dots> = stop r"
      using Cons.prems by (intro run_stopped) (simp_all add: stop_def)
    finally show ?thesis by (simp add: Stop stop_def)
  next
    case (AddReading now v u)
    have "recorder_run (c # cs) r = recorder_run cs (Recorder_addReading now v u r)"
      by (simp add: recorder_run_def AddReading)
    moreover have "recording (Recorder_addReading now v u r)"
      using Cons.prems by (simp add: Recorder_addReading_def)
    moreover have "Start \<notin> set cs" using Cons.prems by simp
    ultimately have "data (recorder_run (c # cs) r) =
        data (Recorder_addReading now v u r) @ added (takeWhile (\<lambda>c. c \<noteq> Stop) cs)"
      using Cons.IH by simp
    then show ?thesis using Cons.prems by (simp add: AddReading Recorder_addReading_def)
  qed
qed

lemma run_last_start:
  "recorder_run (pre @ Start # post) r = recorder_run post (start (recorder_run pre r))"
  by (simp add: recorder_run_def)

text \<open>
  C10. \<^verbatim>\<open>addReading\<close> appends one timestamped entry when the recorder is recording
  and changes nothing otherwise: no sequence of \<^verbatim>\<open>addReading\<close> and \<^verbatim>\<open>stop\<close> calls
  changes a recorder that was never started, or one that was stopped. \<^verbatim>\<open>start\<close>
  discards the data: the count is 0 after it. After any calls, a \<^verbatim>\<open>start\<close> and
  then calls without another \<^verbatim>\<open>start\<close>, the data are exactly the readings added
  after that \<^verbatim>\<open>start\<close> and before the next \<^verbatim>\<open>stop\<close>, and \<^verbatim>\<open>download\<close> exports
  these rows and no other. With no data, \<^verbatim>\<open>download\<close> returns \<^verbatim>\<open>false\<close> and offers
  no file.
\<close>

theorem recorder_records_while_recording:
  "(recording r \<longrightarrow>
      Recorder_addReading now v u r
        = r\<lparr>data := data r @ [\<lparr>timestamp = now, entry_value = v, entry_unit = u\<rparr>]\<rparr>
      \<and> count (Recorder_addReading now v u r) = Suc (count r))
   \<and> (\<not> recording r \<longrightarrow> Recorder_addReading now v u r = r)
   \<and> (Start \<notin> set cs \<longrightarrow> recorder_run cs new_recorder = new_recorder)
   \<and> (Start \<notin> set cs \<longrightarrow> recorder_run cs (stop r) = stop r)
   \<and> data (start r) = [] \<and> count (start r) = 0 \<and> recording (start r)
   \<and> (Start \<notin> set post \<longrightarrow>
        data (recorder_run (pre @ Start # post) r) = added (takeWhile (\<lambda>c. c \<noteq> Stop) post)
        \<and> download f t (recorder_run (pre @ Start # post) r) =
            (if added (takeWhile (\<lambda>c. c \<noteq> Stop) post) = [] then (False, None)
             else (True, Some \<lparr>file_name = js ''scale_recording_'' @ file_stamp t @ js ''.csv'',
                    file_content = csv f (added (takeWhile (\<lambda>c. c \<noteq> Stop) post))\<rparr>)))
   \<and> (data r = [] \<longrightarrow> download f t r = (False, None))"
proof -
  have a: "recording r \<longrightarrow>
      Recorder_addReading now v u r
        = r\<lparr>data := data r @ [\<lparr>timestamp = now, entry_value = v, entry_unit = u\<rparr>]\<rparr>
      \<and> count (Recorder_addReading now v u r) = Suc (count r)"
    by (simp add: Recorder_addReading_def count_def)
  have b: "\<not> recording r \<longrightarrow> Recorder_addReading now v u r = r"
    by (simp add: Recorder_addReading_def)
  have c: "Start \<notin> set cs \<longrightarrow> recorder_run cs new_recorder = new_recorder"
    using run_stopped [of new_recorder cs] by (simp add: new_recorder_def)
  have d: "Start \<notin> set cs \<longrightarrow> recorder_run cs (stop r) = stop r"
    using run_stopped [of "stop r" cs] by (simp add: stop_def)
  have e: "data (start r) = [] \<and> count (start r) = 0 \<and> recording (start r)"
    by (simp add: start_def count_def)
  have g: "data (recorder_run (pre @ Start # post) r) = added (takeWhile (\<lambda>c. c \<noteq> Stop) post)"
    if "Start \<notin> set post"
    using run_recording [of "start (recorder_run pre r)" post] that e
    by (simp add: run_last_start start_def)
  have h: "download f t r' =
      (if data r' = [] then (False, None)
       else (True, Some \<lparr>file_name = js ''scale_recording_'' @ file_stamp t @ js ''.csv'',
              file_content = csv f (data r')\<rparr>))" for r' :: "'a recorder"
    by (simp add: download_def)
  have i: "data r = [] \<longrightarrow> download f t r = (False, None)"
    by (simp add: download_def)
  have j: "Start \<notin> set post \<longrightarrow>
        data (recorder_run (pre @ Start # post) r) = added (takeWhile (\<lambda>c. c \<noteq> Stop) post)
        \<and> download f t (recorder_run (pre @ Start # post) r) =
            (if added (takeWhile (\<lambda>c. c \<noteq> Stop) post) = [] then (False, None)
             else (True, Some \<lparr>file_name = js ''scale_recording_'' @ file_stamp t @ js ''.csv'',
                    file_content = csv f (added (takeWhile (\<lambda>c. c \<noteq> Stop) post))\<rparr>))"
    using g h [of "recorder_run (pre @ Start # post) r"] by simp
  from a b c d e j i show ?thesis
    by blast
qed

theorem recorder_records_while_recording_witness:
  "\<not> recording (new_recorder :: int recorder)
   \<and> Recorder_addReading (js ''t0'') 1 (js ''g'') (new_recorder :: int recorder) = new_recorder
   \<and> Start \<notin> set [AddReading (js ''t1'') (2::int) (js ''g''), Stop, AddReading (js ''t2'') 3 (js ''g'')]
   \<and> data (recorder_run ([AddReading (js ''t0'') 1 (js ''g'')] @ Start #
          [AddReading (js ''t1'') 2 (js ''g''), Stop, AddReading (js ''t2'') 3 (js ''g'')])
          (new_recorder :: int recorder))
       = [\<lparr>timestamp = js ''t1'', entry_value = 2, entry_unit = js ''g''\<rparr>]
   \<and> data (new_recorder :: int recorder) = []
   \<and> download (\<lambda>n. js ''2'') (js ''2024-01-02T12:00:01.000Z'') (new_recorder :: int recorder)
       = (False, None)"
proof -
  let ?post = "[AddReading (js ''t1'') (2::int) (js ''g''), Stop, AddReading (js ''t2'') 3 (js ''g'')]"
  let ?pre = "[AddReading (js ''t0'') (1::int) (js ''g'')]"
  note t = recorder_records_while_recording [where r = "new_recorder :: int recorder"
      and now = "js ''t0''" and v = 1 and u = "js ''g''" and cs = "[]" and pre = ?pre and post = ?post
      and f = "\<lambda>n. js ''2''" and t = "js ''2024-01-02T12:00:01.000Z''"]
  have n: "\<not> recording (new_recorder :: int recorder)" by (simp add: new_recorder_def)
  have e: "data (new_recorder :: int recorder) = []" by (simp add: new_recorder_def)
  have p: "Start \<notin> set ?post" by simp
  have ad: "added (takeWhile (\<lambda>c. c \<noteq> Stop) ?post)
      = [\<lparr>timestamp = js ''t1'', entry_value = 2, entry_unit = js ''g''\<rparr>]"
    by simp
  from t n have 1: "Recorder_addReading (js ''t0'') 1 (js ''g'') (new_recorder :: int recorder) = new_recorder"
    by blast
  from t p have "data (recorder_run (?pre @ Start # ?post) (new_recorder :: int recorder))
      = added (takeWhile (\<lambda>c. c \<noteq> Stop) ?post)"
    by blast
  then have 2: "data (recorder_run (?pre @ Start # ?post) (new_recorder :: int recorder))
      = [\<lparr>timestamp = js ''t1'', entry_value = 2, entry_unit = js ''g''\<rparr>]"
    unfolding ad .
  from t e have 3: "download (\<lambda>n. js ''2'') (js ''2024-01-02T12:00:01.000Z'') (new_recorder :: int recorder)
       = (False, None)"
    by blast
  from n 1 p 2 e 3 show ?thesis by blast
qed

section \<open>Properties of the reading handler\<close>




end
